theory Spec2Isabelle
  imports Complex_Main "HOL-Library.Sublist"
begin

section \<open>JavaScript strings and arrays\<close>

text \<open>
  A JavaScript string is a sequence of code units. The embedding uses \<^typ>\<open>string\<close>, so a
  \<^typ>\<open>char\<close> stands for a code unit in the range 0..255 (ASCII and Latin-1); code units
  beyond that range are outside the model. Numbers are \<^typ>\<open>int\<close>: the chunk size, the
  overlap and \<open>topK\<close> may be negative, and the array primitives below follow ECMAScript
  for negative arguments.
\<close>

text \<open>
  The characters matched by \<open>\s\<close> and removed by \<open>String.prototype.trim\<close> (WhiteSpace and
  LineTerminator of ECMAScript) that lie in the modelled range: TAB, LF, VT, FF, CR, SP, NBSP.
\<close>

definition isWhiteSpace :: "char \<Rightarrow> bool" where
  "isWhiteSpace c \<longleftrightarrow>
     c = CHR 0x09 \<or> c = CHR 0x0A \<or> c = CHR 0x0B \<or> c = CHR 0x0C \<or> c = CHR 0x0D
     \<or> c = CHR 0x20 \<or> c = CHR 0xA0"

definition isNewline :: "char \<Rightarrow> bool" where
  "isNewline c \<longleftrightarrow> c = CHR 0x0A"

text \<open>\<open>s.trim()\<close>\<close>

definition trim :: "string \<Rightarrow> string" where
  "trim s = rev (dropWhile isWhiteSpace (rev (dropWhile isWhiteSpace s)))"

text \<open>
  \<open>s.replace(/ab/g, r)\<close> for a pattern of two literal characters \<open>a\<close>, \<open>b\<close>: every
  occurrence, found from the left and not overlapping, is replaced by \<open>r\<close>.
\<close>

fun replace2 :: "char \<Rightarrow> char \<Rightarrow> string \<Rightarrow> string \<Rightarrow> string" where
  "replace2 a b r (c # d # cs) =
     (if c = a \<and> d = b then r @ replace2 a b r cs else c # replace2 a b r (d # cs))"
| "replace2 a b r cs = cs"

text \<open>\<open>s.replace(/\s+/g, " ")\<close>: every maximal run of white space becomes one space.\<close>

function collapse_ws :: "string \<Rightarrow> string" where
  "collapse_ws [] = []"
| "collapse_ws (c # cs) =
     (if isWhiteSpace c then CHR 0x20 # collapse_ws (dropWhile isWhiteSpace cs)
      else c # collapse_ws cs)"
  by pat_completeness auto
termination
  by (relation "measure length") (auto simp: length_dropWhile_le less_Suc_eq_le)

text \<open>
  \<open>s.split(/P+/)\<close> for a character class \<open>P\<close>: the string is cut at every maximal run of
  characters of the class. As in ECMAScript, a run at the start or at the end leaves an empty
  string there, and the empty string splits into one empty string.
\<close>

function split_runs :: "(char \<Rightarrow> bool) \<Rightarrow> string \<Rightarrow> string list" where
  "split_runs P [] = [[]]"
| "split_runs P (c # cs) =
     (if P c then [] # split_runs P (dropWhile P cs)
      else (case split_runs P cs of
              [] \<Rightarrow> [[c]]
            | w # ws \<Rightarrow> (c # w) # ws))"
  by pat_completeness auto
termination
  by (relation "measure (\<lambda>(P, s). length s)") (auto simp: length_dropWhile_le less_Suc_eq_le)

text \<open>\<open>xs.join(sep)\<close>\<close>

fun join :: "string \<Rightarrow> string list \<Rightarrow> string" where
  "join sep [] = []"
| "join sep [x] = x"
| "join sep (x # y # ys) = x @ sep @ join sep (y # ys)"

text \<open>
  \<open>xs.slice(start, fin)\<close>: a negative argument counts from the end, both are clamped to the
  array, and the result is empty when the end is not after the start.
\<close>

definition slice :: "'a list \<Rightarrow> int \<Rightarrow> int \<Rightarrow> 'a list" where
  "slice xs start fin =
     (let len = int (length xs);
          k = (if start < 0 then max (len + start) 0 else min start len);
          final = (if fin < 0 then max (len + fin) 0 else min fin len)
      in take (nat (final - k)) (drop (nat k) xs))"

text \<open>\<open>xs.slice(start)\<close>: the end defaults to the length.\<close>

definition slice_from :: "'a list \<Rightarrow> int \<Rightarrow> 'a list" where
  "slice_from xs start = slice xs start (int (length xs))"

section \<open>The chunker\<close>

record chunk =
  content :: string
  chunkIndex :: nat
  pageNumber :: int

definition space :: string where
  "space = [CHR 0x20]"

definition blank_line :: string where
  "blank_line = [CHR 0x0A, CHR 0x0A]"

text \<open>
  The sliding-window loop of \<open>chunkText\<close> (the same loop is written twice in the source, for
  an oversized paragraph and for the fallback over all words). \<open>i\<close> is the loop variable;
  \<open>chunks\<close> and \<open>nextIndex\<close> (the source's counter \<open>chunkIndex\<close>) are the variables of the
  enclosing function that the loop updates. The loop need not terminate, so the result is an
  option: \<open>None\<close> is a loop that runs forever.
\<close>

partial_function (option) window_loop ::
  "string list \<Rightarrow> int \<Rightarrow> int \<Rightarrow> int \<Rightarrow> chunk list \<Rightarrow> nat \<Rightarrow> (chunk list \<times> nat) option" where
  "window_loop paragraphWords chunkSize overlap i chunks nextIndex =
     (if i < int (length paragraphWords) then
        (let chunkWords = slice paragraphWords i (i + chunkSize);
             chunks' = chunks @ [\<lparr>content = join space chunkWords, chunkIndex = nextIndex,
                                 pageNumber = 0\<rparr>]
         in if i + chunkSize \<ge> int (length paragraphWords) then Some (chunks', nextIndex + 1)
            else window_loop paragraphWords chunkSize overlap (i + (chunkSize - overlap))
                   chunks' (nextIndex + 1))
      else Some (chunks, nextIndex))"

declare window_loop.simps [code]

text \<open>
  The loop over the paragraphs. The state is the four local variables \<open>chunks\<close>,
  \<open>currentChunk\<close>, \<open>currentWordCount\<close> and \<open>chunkIndex\<close>; the last is written
  \<open>nextIndex\<close> here, as \<open>chunkIndex\<close> is the field of the record.
\<close>

fun pack ::
  "string list \<Rightarrow> int \<Rightarrow> int \<Rightarrow> chunk list \<Rightarrow> string list \<Rightarrow> int \<Rightarrow> nat
     \<Rightarrow> (chunk list \<times> string list \<times> int \<times> nat) option" where
  "pack [] chunkSize overlap chunks currentChunk currentWordCount nextIndex =
     Some (chunks, currentChunk, currentWordCount, nextIndex)"
| "pack (paragraph # rest) chunkSize overlap chunks currentChunk currentWordCount nextIndex =
     (let paragraphWords = split_runs isWhiteSpace (trim paragraph);
          paragraphWordCount = int (length paragraphWords)
      in if paragraphWordCount > chunkSize then
           (let flush = (currentChunk \<noteq> []);
                chunks1 = (if flush
                           then chunks @ [\<lparr>content = join blank_line currentChunk,
                                           chunkIndex = nextIndex, pageNumber = 0\<rparr>]
                           else chunks);
                nextIndex1 = (if flush then nextIndex + 1 else nextIndex);
                currentChunk1 = (if flush then [] else currentChunk);
                currentWordCount1 = (if flush then 0 else currentWordCount)
            in case window_loop paragraphWords chunkSize overlap 0 chunks1 nextIndex1 of
                 None \<Rightarrow> None
               | Some (chunks2, nextIndex2) \<Rightarrow>
                   pack rest chunkSize overlap chunks2 currentChunk1 currentWordCount1 nextIndex2)
         else if currentWordCount + paragraphWordCount > chunkSize \<and> currentChunk \<noteq> [] then
           (let chunks1 = chunks @ [\<lparr>content = join blank_line currentChunk,
                                     chunkIndex = nextIndex, pageNumber = 0\<rparr>];
                prevChunkText = join space currentChunk;
                prevWords = split_runs isWhiteSpace prevChunkText;
                overlapText = join space
                  (slice_from prevWords (- min overlap (int (length prevWords))))
            in pack rest chunkSize overlap chunks1 [overlapText, trim paragraph]
                 (int (length (split_runs isWhiteSpace overlapText)) + paragraphWordCount)
                 (nextIndex + 1))
         else pack rest chunkSize overlap chunks (currentChunk @ [trim paragraph])
                (currentWordCount + paragraphWordCount) nextIndex)"

text \<open>The normalisation at the head of \<open>chunkText\<close>.\<close>

definition cleanedText :: "string \<Rightarrow> string" where
  "cleanedText text =
     trim (replace2 (CHR 0x20) (CHR 0x0A) [CHR 0x0A]
            (replace2 (CHR 0x0A) (CHR 0x20) [CHR 0x0A]
              (collapse_ws (replace2 (CHR 0x0D) (CHR 0x0A) [CHR 0x0A] text))))"

definition paragraphs :: "string \<Rightarrow> string list" where
  "paragraphs cleaned = filter (\<lambda>p. trim p \<noteq> []) (split_runs isNewline cleaned)"

definition chunkText :: "string \<Rightarrow> int \<Rightarrow> int \<Rightarrow> chunk list option" where
  "chunkText text chunkSize overlap =
     (if text = [] \<or> trim text = [] then Some []
      else
        (let cleaned = cleanedText text in
         case pack (paragraphs cleaned) chunkSize overlap [] [] 0 0 of
           None \<Rightarrow> None
         | Some (chunks, currentChunk, currentWordCount, nextIndex) \<Rightarrow>
             (let chunks1 = (if currentChunk \<noteq> []
                             then chunks @ [\<lparr>content = join blank_line currentChunk,
                                             chunkIndex = nextIndex, pageNumber = 0\<rparr>]
                             else chunks)
              in if chunks1 = [] \<and> cleaned \<noteq> []
                 then map_option fst
                        (window_loop (split_runs isWhiteSpace cleaned) chunkSize overlap 0
                           chunks1 nextIndex)
                 else Some chunks1)))"

section \<open>The relevance ranker\<close>

text \<open>
  A ranked entry is the object \<open>{...chunk, score}\<close>. The ranker also returns entries of the
  chunk list as they are; those have no \<open>score\<close> property, which is \<open>score = None\<close>. The
  chunk list that the ranker receives holds chunks as the chunker makes them, without a score.
\<close>

record ranked = chunk +
  score :: "nat option"

definition with_score :: "chunk \<Rightarrow> nat option \<Rightarrow> ranked" where
  "with_score c s =
     \<lparr>content = content c, chunkIndex = chunkIndex c, pageNumber = pageNumber c, score = s\<rparr>"

definition stopWords :: "string list" where
  "stopWords =
     [''what'', ''is'', ''the'', ''of'', ''as'', ''in'', ''a'', ''an'', ''and'', ''or'', ''to'',
      ''that'', ''this'', ''it'', ''for'', ''on'', ''are'', ''was'', ''with'', ''by'', ''at'',
      ''from'', ''stated'', ''text'', ''me'', ''tell'', ''about'', ''does'']"

text \<open>
  \<open>s.toLowerCase()\<close> on the modelled range: the letters A to Z, and the Latin-1 capitals
  0xC0 to 0xDE without the multiplication sign 0xD7.
\<close>

definition lower_char :: "char \<Rightarrow> char" where
  "lower_char c =
     (let n = (of_char c :: nat)
      in if (65 \<le> n \<and> n \<le> 90) \<or> (192 \<le> n \<and> n \<le> 222 \<and> n \<noteq> 215) then char_of (n + 32) else c)"

definition toLowerCase :: "string \<Rightarrow> string" where
  "toLowerCase s = map lower_char s"

subsection \<open>Regular expressions\<close>

text \<open>
  \<open>new RegExp(word, "gi")\<close> reads the query word as a pattern. The embedding covers the
  patterns made of literal characters and \<open>.\<close>, each with an optional quantifier \<open>*\<close>,
  \<open>+\<close> or \<open>?\<close> (lazy when followed by \<open>?\<close>). A quantifier with nothing to repeat is the
  \<open>SyntaxError\<close> that the constructor throws. The other syntax characters (groups, classes,
  escapes, anchors, alternation, braces) are outside the embedding: for a pattern that uses one
  before any error the result is \<open>Unmodelled\<close>, which stands for no particular behaviour of
  the program.
\<close>

datatype js_error = SyntaxError | Unmodelled

datatype regex_atom = Literal char | AnyChar

datatype quantifier = Once | Optional bool | Star bool | Plus bool

type_synonym regex = "(regex_atom \<times> quantifier) list"

definition isSyntaxCharacter :: "char \<Rightarrow> bool" where
  "isSyntaxCharacter c \<longleftrightarrow> c \<in> set (CHR 0x5C # ''^$.*+?()[]{}|'')"

definition isQuantifierChar :: "char \<Rightarrow> bool" where
  "isQuantifierChar c \<longleftrightarrow> c = CHR ''*'' \<or> c = CHR ''+'' \<or> c = CHR ''?''"

text \<open>
  The quantifier at the head of the rest of a pattern, and what follows it. The flag of a
  quantifier is \<open>True\<close> for greedy.
\<close>

fun parse_quantifier :: "string \<Rightarrow> quantifier \<times> string" where
  "parse_quantifier [] = (Once, [])"
| "parse_quantifier (q # cs) =
     (if isQuantifierChar q then
        (let greedy = (case cs of [] \<Rightarrow> True | l # _ \<Rightarrow> l \<noteq> CHR ''?'');
             rest = (if greedy then cs else tl cs)
         in (if q = CHR ''*'' then Star greedy
             else if q = CHR ''+'' then Plus greedy
             else Optional greedy, rest))
      else (Once, q # cs))"

function parse_terms :: "string \<Rightarrow> js_error + regex" where
  "parse_terms [] = Inr []"
| "parse_terms (c # cs) =
     (if isQuantifierChar c then Inl SyntaxError
      else if c \<noteq> CHR ''.'' \<and> isSyntaxCharacter c then Inl Unmodelled
      else
        (let atom = (if c = CHR ''.'' then AnyChar else Literal c);
             (q, rest) = parse_quantifier cs
         in case parse_terms rest of
              Inl e \<Rightarrow> Inl e
            | Inr terms \<Rightarrow> Inr ((atom, q) # terms)))"
  by pat_completeness auto
termination
proof (relation "measure length")
  show "wf (measure length)" by simp
next
  fix c :: char and cs :: string and atom x q rest
  assume "x = parse_quantifier cs" "(q, rest) = x"
  then have "parse_quantifier cs = (q, rest)" by simp
  then have "length rest \<le> length cs"
    by (cases cs) (auto simp: Let_def split: if_splits list.splits)
  then show "(rest, c # cs) \<in> measure length" by simp
qed

definition RegExp :: "string \<Rightarrow> js_error + regex" where
  "RegExp pattern = parse_terms pattern"

text \<open>
  With the flag \<open>i\<close> two characters match when their canonical forms are equal; the
  canonical form is the upper-case character. (The upper case of 0xFF and of 0xB5 lies
  beyond the modelled range and is the upper case of no other character of the range, and the
  upper case of 0xDF is two characters, so these three are their own canonical form here.)
\<close>

definition canonicalize :: "char \<Rightarrow> char" where
  "canonicalize c =
     (let n = (of_char c :: nat)
      in if (97 \<le> n \<and> n \<le> 122) \<or> (224 \<le> n \<and> n \<le> 254 \<and> n \<noteq> 247) then char_of (n - 32) else c)"

text \<open>\<open>.\<close> matches every character but a line terminator.\<close>

fun atom_matches :: "regex_atom \<Rightarrow> char \<Rightarrow> bool" where
  "atom_matches (Literal a) c = (canonicalize a = canonicalize c)"
| "atom_matches AnyChar c = (c \<noteq> CHR 0x0A \<and> c \<noteq> CHR 0x0D)"

text \<open>
  The backtracking matcher at the head of a string: the length of the match that the
  pattern's priorities select (a greedy quantifier tries one more repetition first, a lazy one
  tries to go on first), or \<open>None\<close>.
\<close>

fun match_here :: "regex \<Rightarrow> string \<Rightarrow> nat option" where
  "match_here [] s = Some 0"
| "match_here ((a, Once) # r) s =
     (case s of
        [] \<Rightarrow> None
      | c # cs \<Rightarrow> if atom_matches a c then map_option Suc (match_here r cs) else None)"
| "match_here ((a, Optional greedy) # r) s =
     (let one = (case s of
                   [] \<Rightarrow> None
                 | c # cs \<Rightarrow> if atom_matches a c then map_option Suc (match_here r cs) else None);
          skip = match_here r s
      in if greedy then (case one of Some k \<Rightarrow> Some k | None \<Rightarrow> skip)
         else (case skip of Some k \<Rightarrow> Some k | None \<Rightarrow> one))"
| "match_here ((a, Star greedy) # r) s =
     (let more = (case s of
                    [] \<Rightarrow> None
                  | c # cs \<Rightarrow> if atom_matches a c
                             then map_option Suc (match_here ((a, Star greedy) # r) cs)
                             else None);
          stop = match_here r s
      in if greedy then (case more of Some k \<Rightarrow> Some k | None \<Rightarrow> stop)
         else (case stop of Some k \<Rightarrow> Some k | None \<Rightarrow> more))"
| "match_here ((a, Plus greedy) # r) s =
     (case s of
        [] \<Rightarrow> None
      | c # cs \<Rightarrow> if atom_matches a c
                 then map_option Suc (match_here ((a, Star greedy) # r) cs)
                 else None)"

text \<open>
  \<open>(content.match(re) || []).length\<close> for a global pattern: the matches are found from the
  left; the search goes on at the end of a match, one character further after an empty match,
  and one character further where the pattern does not match.
\<close>

fun count_matches :: "regex \<Rightarrow> string \<Rightarrow> nat" where
  "count_matches re [] = (case match_here re [] of Some k \<Rightarrow> 1 | None \<Rightarrow> 0)"
| "count_matches re (c # cs) =
     (case match_here re (c # cs) of
        Some k \<Rightarrow> 1 + count_matches re (drop (max k 1) (c # cs))
      | None \<Rightarrow> count_matches re cs)"

subsection \<open>Scoring and ranking\<close>

text \<open>
  The \<open>reduce\<close> over the query words; \<open>acc\<close> is its accumulator and \<open>lowered\<close> the
  lower-cased content of the chunk (the source's local \<open>content\<close>).
\<close>

fun reduce_matches :: "string list \<Rightarrow> string \<Rightarrow> nat \<Rightarrow> js_error + nat" where
  "reduce_matches [] lowered acc = Inr acc"
| "reduce_matches (word # rest) lowered acc =
     (case RegExp word of
        Inl e \<Rightarrow> Inl e
      | Inr re \<Rightarrow> reduce_matches rest lowered (acc + count_matches re lowered))"

text \<open>The \<open>map\<close> over the chunks that builds \<open>scored\<close>.\<close>

fun scored :: "string list \<Rightarrow> chunk list \<Rightarrow> js_error + ranked list" where
  "scored words [] = Inr []"
| "scored words (c # rest) =
     (case reduce_matches words (toLowerCase (content c)) 0 of
        Inl e \<Rightarrow> Inl e
      | Inr sc \<Rightarrow>
          (case scored words rest of
             Inl e \<Rightarrow> Inl e
           | Inr rs \<Rightarrow> Inr (with_score c (Some sc) # rs)))"

text \<open>
  The comparator \<open>(a, b) => b.score - a.score\<close>. A missing score is \<open>undefined\<close> and the
  difference is then NaN, here \<open>None\<close>.
\<close>

definition compareFn :: "ranked \<Rightarrow> ranked \<Rightarrow> int option" where
  "compareFn a b =
     (case (score b, score a) of
        (Some sb, Some sa) \<Rightarrow> Some (int sb - int sa)
      | _ \<Rightarrow> None)"

text \<open>
  \<open>xs.sort(cmp)\<close>. The sort of ECMAScript is stable and reads a NaN of the comparator as
  \<open>+0\<close>. Under a comparator that orders the elements consistently, as \<open>compareFn\<close> does on
  a list whose entries all have a score or all have none, these two facts determine the
  result: it is the stable sorted arrangement, which insertion from the right computes.
\<close>

definition comparator_value :: "int option \<Rightarrow> int" where
  "comparator_value v = (case v of None \<Rightarrow> 0 | Some d \<Rightarrow> d)"

fun sort_insert :: "('a \<Rightarrow> 'a \<Rightarrow> int option) \<Rightarrow> 'a \<Rightarrow> 'a list \<Rightarrow> 'a list" where
  "sort_insert cmp x [] = [x]"
| "sort_insert cmp x (y # ys) =
     (if comparator_value (cmp x y) \<le> 0 then x # y # ys else y # sort_insert cmp x ys)"

definition js_sort :: "('a \<Rightarrow> 'a \<Rightarrow> int option) \<Rightarrow> 'a list \<Rightarrow> 'a list" where
  "js_sort cmp xs = foldr (sort_insert cmp) xs []"

definition queryWords :: "string \<Rightarrow> string list" where
  "queryWords query =
     filter (\<lambda>w. length w > 2 \<and> w \<notin> set stopWords) (split_runs isWhiteSpace (toLowerCase query))"

text \<open>
  The list that \<open>findRelevantChunks\<close> sorts: the scored chunks with a positive score, or
  the chunk list itself when there is none.
\<close>

definition selected :: "ranked list \<Rightarrow> chunk list \<Rightarrow> ranked list" where
  "selected scored_chunks chunks =
     (let filtered = filter (\<lambda>c. case score c of None \<Rightarrow> False | Some sc \<Rightarrow> sc > 0) scored_chunks
      in if filtered \<noteq> [] then filtered else map (\<lambda>c. with_score c None) chunks)"

definition findRelevantChunks :: "chunk list \<Rightarrow> string \<Rightarrow> int \<Rightarrow> js_error + ranked list" where
  "findRelevantChunks chunks query topK =
     (if chunks = [] \<or> query = [] then Inr []
      else if queryWords query = [] then Inr (slice (map (\<lambda>c. with_score c None) chunks) 0 topK)
      else
        (case scored (queryWords query) chunks of
           Inl e \<Rightarrow> Inl e
         | Inr scored_chunks \<Rightarrow>
             Inr (slice (js_sort compareFn (selected scored_chunks chunks)) 0 topK)))"

section \<open>Vocabulary of the properties\<close>

text \<open>The words of the normalised text, as \<open>chunkText\<close> counts them.\<close>

definition textWords :: "string \<Rightarrow> string list" where
  "textWords text = split_runs isWhiteSpace (cleanedText text)"

text \<open>
  For \<open>chunkSize > overlap >= 0\<close> the loop started at \<open>i\<close> emits \<open>window_count\<close> windows;
  the \<open>k\<close>-th of them is \<open>window_chunk\<close>: the \<open>chunkSize\<close> words from position
  \<open>i + k * step\<close> on, joined by single spaces.
\<close>

definition window_count :: "int \<Rightarrow> int \<Rightarrow> int \<Rightarrow> int \<Rightarrow> nat" where
  "window_count len chunkSize step i = nat ((max (len - chunkSize - i) 0 + step - 1) div step) + 1"

definition window_chunk :: "string list \<Rightarrow> int \<Rightarrow> int \<Rightarrow> int \<Rightarrow> nat \<Rightarrow> nat \<Rightarrow> chunk" where
  "window_chunk ws chunkSize step i idx k =
     \<lparr>content = join space (take (nat chunkSize) (drop (nat (i + int k * step)) ws)),
      chunkIndex = idx + k, pageNumber = 0\<rparr>"

text \<open>The number of words of a text, counted the way \<open>chunkText\<close> counts a paragraph's.\<close>

definition wordCount :: "string \<Rightarrow> nat" where
  "wordCount s = length (split_runs isWhiteSpace (trim s))"

text \<open>A list of words: none is empty, none contains white space.\<close>

definition words_ok :: "string list \<Rightarrow> bool" where
  "words_ok ys \<longleftrightarrow> (\<forall>w\<in>set ys. w \<noteq> [] \<and> (\<forall>c\<in>set w. \<not> isWhiteSpace c))"

text \<open>The chunk that a ranked entry was made from.\<close>

definition chunk_of :: "ranked \<Rightarrow> chunk" where
  "chunk_of r = \<lparr>content = content r, chunkIndex = chunkIndex r, pageNumber = pageNumber r\<rparr>"

text \<open>
  The key under which \<open>compareFn\<close> orders: the negated score, so that an ascending sort on
  the key is a descending sort on the score; entries without a score all have the key 0.
\<close>

definition score_key :: "ranked \<Rightarrow> int" where
  "score_key r = (case score r of None \<Rightarrow> 0 | Some sc \<Rightarrow> - int sc)"

text \<open>
  The selected candidates, from which \<open>findRelevantChunks\<close> returns the first \<open>topK\<close>:
  none when the chunk list or the query is empty, all chunks when no query word survives the
  filter, and else the list \<open>selected\<close> that the function sorts.
\<close>

definition candidates :: "chunk list \<Rightarrow> string \<Rightarrow> js_error + ranked list" where
  "candidates chunks query =
     (if chunks = [] \<or> query = [] then Inr []
      else if queryWords query = [] then Inr (map (\<lambda>c. with_score c None) chunks)
      else
        (case scored (queryWords query) chunks of
           Inl e \<Rightarrow> Inl e
         | Inr scored_chunks \<Rightarrow> Inr (selected scored_chunks chunks)))"

text \<open>
  Literal counting, as the specification words it: the occurrences of the word \<open>w\<close> in a
  string, compared without regard to case, found from the left and not overlapping. This
  definition follows the specification, not the source; \<open>scored_literal\<close> compares the two.
\<close>

fun count_literal :: "string \<Rightarrow> string \<Rightarrow> nat" where
  "count_literal w [] = (if w = [] then 1 else 0)"
| "count_literal w (c # cs) =
     (if prefix (map canonicalize w) (map canonicalize (c # cs))
      then 1 + count_literal w (drop (max (length w) 1) (c # cs))
      else count_literal w cs)"

text \<open>
  A string contains a word, compared without regard to case: the word's canonical forms
  occur in the string's as a contiguous run.
\<close>

definition contains_word :: "string \<Rightarrow> string \<Rightarrow> bool" where
  "contains_word s w \<longleftrightarrow> sublist (map canonicalize w) (map canonicalize s)"

text \<open>The pattern that matches the characters of a word one by one.\<close>

definition literal_pattern :: "string \<Rightarrow> regex" where
  "literal_pattern w = map (\<lambda>c. (Literal c, Once)) w"

section \<open>Properties of the string primitives\<close>

lemma in_dropWhile: "x \<in> set xs \<Longrightarrow> \<not> P x \<Longrightarrow> x \<in> set (dropWhile P xs)"
  by (induction xs) auto

lemma trim_subset: "set (trim s) \<subseteq> set s"
proof -
  have "set (trim s) \<subseteq> set (dropWhile isWhiteSpace s)"
    unfolding trim_def using set_dropWhileD[of _ isWhiteSpace "rev (dropWhile isWhiteSpace s)"] by auto
  then show ?thesis using set_dropWhileD[of _ isWhiteSpace s] by blast
qed

lemma trim_keeps: "c \<in> set s \<Longrightarrow> \<not> isWhiteSpace c \<Longrightarrow> c \<in> set (trim s)"
  unfolding trim_def by (simp add: in_dropWhile)

lemma trim_empty_iff: "trim s = [] \<longleftrightarrow> (\<forall>c\<in>set s. isWhiteSpace c)"
proof
  assume "trim s = []"
  then show "\<forall>c\<in>set s. isWhiteSpace c" using trim_keeps[of _ s] by fastforce
next
  assume "\<forall>c\<in>set s. isWhiteSpace c"
  then have "dropWhile isWhiteSpace s = []" by simp
  then show "trim s = []" by (simp only: trim_def rev.simps dropWhile.simps)
qed

lemma trim_ends:
  assumes "trim s \<noteq> []"
  shows "\<not> isWhiteSpace (hd (trim s))" and "\<not> isWhiteSpace (last (trim s))"
proof -
  let ?d = "dropWhile isWhiteSpace s"
  let ?e = "dropWhile isWhiteSpace (rev ?d)"
  from assms have e: "?e \<noteq> []" by (simp add: trim_def)
  have d: "?d \<noteq> []"
  proof
    assume "?d = []"
    then have "?e = []" by (simp only: rev.simps dropWhile.simps)
    with e show False by contradiction
  qed
  have hd_e: "\<not> isWhiteSpace (hd ?e)" using e hd_dropWhile by blast
  have "last (trim s) = hd ?e" using e by (simp add: trim_def last_rev)
  then show "\<not> isWhiteSpace (last (trim s))" using hd_e by simp
  have hd_d: "\<not> isWhiteSpace (hd ?d)" using d hd_dropWhile by blast
  have "last (takeWhile isWhiteSpace (rev ?d) @ ?e) = last ?e" using e by (rule last_appendR)
  then have "last ?e = last (rev ?d)" by simp
  also have "\<dots> = hd ?d" using d by (simp add: last_rev)
  finally have "last ?e = hd ?d" .
  moreover have "hd (trim s) = last ?e" using e by (simp add: trim_def hd_rev)
  ultimately show "\<not> isWhiteSpace (hd (trim s))" using hd_d by simp
qed

lemma trim_id: "s \<noteq> [] \<Longrightarrow> \<not> isWhiteSpace (hd s) \<Longrightarrow> \<not> isWhiteSpace (last s) \<Longrightarrow> trim s = s"
proof -
  assume a: "s \<noteq> []" "\<not> isWhiteSpace (hd s)" "\<not> isWhiteSpace (last s)"
  then have d: "dropWhile isWhiteSpace s = s" by (cases s) auto
  have "dropWhile isWhiteSpace (rev s) = rev s" using a by (cases s rule: rev_cases) auto
  then show ?thesis by (simp add: trim_def d)
qed

lemma trim_idem: "trim (trim s) = trim s"
proof (cases "trim s = []")
  case True
  have "trim [] = []" by (simp add: trim_def)
  with True show ?thesis by simp
next
  case False then show ?thesis using trim_ends[OF False] by (simp add: trim_id)
qed

lemma replace2_absent_fst: "a \<notin> set s \<Longrightarrow> replace2 a b r s = s"
  by (induction a b r s rule: replace2.induct) auto

lemma replace2_absent_snd: "b \<notin> set s \<Longrightarrow> replace2 a b r s = s"
  by (induction a b r s rule: replace2.induct) auto

lemma replace2_keeps: "c \<in> set s \<Longrightarrow> c \<noteq> a \<Longrightarrow> c \<noteq> b \<Longrightarrow> c \<in> set (replace2 a b r s)"
  by (induction a b r s rule: replace2.induct) auto

lemma collapse_ws_keeps: "c \<in> set s \<Longrightarrow> \<not> isWhiteSpace c \<Longrightarrow> c \<in> set (collapse_ws s)"
  by (induction s rule: collapse_ws.induct) (auto simp: in_dropWhile)

lemma collapse_ws_chars: "c \<in> set (collapse_ws s) \<Longrightarrow> isWhiteSpace c \<Longrightarrow> c = CHR 0x20"
  by (induction s rule: collapse_ws.induct) (auto split: if_splits)

lemma split_runs_none: "\<forall>c\<in>set s. \<not> P c \<Longrightarrow> split_runs P s = [s]"
  by (induction s) auto

lemma split_runs_nonempty: "split_runs P s \<noteq> []"
  by (cases s) (auto split: list.splits)

lemma split_runs_chars: "w \<in> set (split_runs P s) \<Longrightarrow> c \<in> set w \<Longrightarrow> c \<in> set s \<and> \<not> P c"
proof (induction P s arbitrary: w rule: split_runs.induct)
  case (1 P) then show ?case by simp
next
  case (2 P d ds)
  show ?case
  proof (cases "P d")
    case True
    with 2 have "w \<in> set (split_runs P (dropWhile P ds))" by auto
    from "2.IH"(1)[OF True this "2.prems"(2)] show ?thesis using set_dropWhileD by fastforce
  next
    case False
    obtain v vs where s: "split_runs P ds = v # vs" using split_runs_nonempty by (cases "split_runs P ds") auto
    with False 2 have "w = d # v \<or> w \<in> set vs" by auto
    then show ?thesis using "2.IH"(2)[OF False, of v] "2.IH"(2)[OF False, of w] "2.prems"(2) s False by auto
  qed
qed

section \<open>The normalised text is one paragraph\<close>

lemma split_runs_hd: "s \<noteq> [] \<Longrightarrow> \<not> P (hd s) \<Longrightarrow> hd (split_runs P s) \<noteq> []"
  by (cases s) (auto split: list.splits)

lemma split_runs_tl:
  "s \<noteq> [] \<Longrightarrow> \<not> P (last s) \<Longrightarrow> [] \<notin> set (tl (split_runs P s))"
proof (induction P s rule: split_runs.induct)
  case (1 P) then show ?case by simp
next
  case (2 P c cs)
  show ?case
  proof (cases "P c")
    case True
    let ?d = "dropWhile P cs"
    from True "2.prems" have cs: "cs \<noteq> []" by auto
    with "2.prems" have l: "\<not> P (last cs)" by simp
    have "last cs \<in> set cs" using cs by simp
    then have d: "?d \<noteq> []" using l by auto
    have "last (takeWhile P cs @ ?d) = last ?d" using d by (rule last_appendR)
    then have ld: "\<not> P (last ?d)" using l by simp
    have hd: "\<not> P (hd ?d)" using d hd_dropWhile by blast
    have "hd (split_runs P ?d) \<noteq> []" using d hd by (rule split_runs_hd)
    moreover have "[] \<notin> set (tl (split_runs P ?d))" using "2.IH"(1)[OF True d ld] .
    ultimately have "[] \<notin> set (split_runs P ?d)"
      using split_runs_nonempty[of P ?d] by (cases "split_runs P ?d") auto
    then show ?thesis using True by simp
  next
    case False
    show ?thesis
    proof (cases "cs = []")
      case True then show ?thesis using False by simp
    next
      case ne: False
      with "2.prems" have "\<not> P (last cs)" by simp
      from "2.IH"(2)[OF False ne this] show ?thesis using False
        by (auto split: list.splits)
    qed
  qed
qed

lemma split_runs_words:
  assumes "s \<noteq> []" "\<not> P (hd s)" "\<not> P (last s)"
  shows "[] \<notin> set (split_runs P s)"
  using split_runs_hd[of s P] split_runs_tl[of s P] split_runs_nonempty[of P s] assms
  by (cases "split_runs P s") auto

lemma cleanedText_eq:
  "cleanedText text = trim (collapse_ws (replace2 (CHR 0x0D) (CHR 0x0A) [CHR 0x0A] text))"
proof -
  let ?c = "collapse_ws (replace2 (CHR 0x0D) (CHR 0x0A) [CHR 0x0A] text)"
  have nl: "CHR 0x0A \<notin> set ?c"
    using collapse_ws_chars[of "CHR 0x0A" "replace2 (CHR 0x0D) (CHR 0x0A) [CHR 0x0A] text"]
    by (auto simp: isWhiteSpace_def)
  then have "replace2 (CHR 0x0A) (CHR 0x20) [CHR 0x0A] ?c = ?c" by (rule replace2_absent_fst)
  moreover have "replace2 (CHR 0x20) (CHR 0x0A) [CHR 0x0A] ?c = ?c" using nl by (rule replace2_absent_snd)
  ultimately show ?thesis by (simp add: cleanedText_def)
qed

lemma cleanedText_no_newline: "CHR 0x0A \<notin> set (cleanedText text)"
proof
  assume "CHR 0x0A \<in> set (cleanedText text)"
  then have "CHR 0x0A \<in> set (collapse_ws (replace2 (CHR 0x0D) (CHR 0x0A) [CHR 0x0A] text))"
    using trim_subset by (auto simp: cleanedText_eq)
  then have "CHR 0x0A = CHR 0x20" by (rule collapse_ws_chars) (simp add: isWhiteSpace_def)
  then show False by simp
qed

lemma cleanedText_nonempty: "trim text \<noteq> [] \<Longrightarrow> cleanedText text \<noteq> []"
proof -
  assume "trim text \<noteq> []"
  then obtain c where c: "c \<in> set text" "\<not> isWhiteSpace c" by (auto simp: trim_empty_iff)
  then have "c \<noteq> CHR 0x0D" "c \<noteq> CHR 0x0A" by (auto simp: isWhiteSpace_def)
  with c have "c \<in> set (replace2 (CHR 0x0D) (CHR 0x0A) [CHR 0x0A] text)" by (simp add: replace2_keeps)
  then have "c \<in> set (collapse_ws (replace2 (CHR 0x0D) (CHR 0x0A) [CHR 0x0A] text))"
    using c(2) by (rule collapse_ws_keeps)
  then have "c \<in> set (cleanedText text)" using c(2) by (simp add: cleanedText_eq trim_keeps)
  then show ?thesis by auto
qed

lemma cleanedText_trimmed: "trim (cleanedText text) = cleanedText text"
  by (simp add: cleanedText_eq trim_idem)

lemma paragraphs_single:
  assumes "trim text \<noteq> []"
  shows "paragraphs (cleanedText text) = [cleanedText text]"
proof -
  have "\<forall>c\<in>set (cleanedText text). \<not> isNewline c"
    using cleanedText_no_newline[of "text"] by (auto simp: isNewline_def)
  then have "split_runs isNewline (cleanedText text) = [cleanedText text]" by (rule split_runs_none)
  then show ?thesis using cleanedText_nonempty[OF assms]
    by (simp add: paragraphs_def cleanedText_trimmed)
qed

lemma textWords_words:
  assumes "trim text \<noteq> []" "w \<in> set (textWords text)"
  shows "w \<noteq> []" and "\<forall>c\<in>set w. \<not> isWhiteSpace c"
proof -
  let ?t = "cleanedText text"
  have ne: "?t \<noteq> []" using assms(1) by (rule cleanedText_nonempty)
  then have t: "trim ?t \<noteq> []" by (simp add: cleanedText_trimmed)
  have "\<not> isWhiteSpace (hd ?t)" "\<not> isWhiteSpace (last ?t)"
    using trim_ends[OF t] by (simp_all add: cleanedText_trimmed)
  with ne have "[] \<notin> set (split_runs isWhiteSpace ?t)" by (rule split_runs_words)
  with assms(2) show "w \<noteq> []" by (auto simp: textWords_def)
  show "\<forall>c\<in>set w. \<not> isWhiteSpace c"
    using assms(2) split_runs_chars[of w isWhiteSpace ?t] by (auto simp: textWords_def)
qed

section \<open>The sliding-window loop\<close>

lemma slice_subset: "set (slice xs a b) \<subseteq> set xs"
proof -
  have "set (take n (drop k xs)) \<subseteq> set xs" for n k
    using set_take_subset[of n "drop k xs"] set_drop_subset[of k xs] by blast
  then show ?thesis by (simp add: slice_def Let_def)
qed

lemma slice_window:
  assumes "0 \<le> i" "0 \<le> n"
  shows "slice xs i (i + n) = take (nat n) (drop (nat i) xs)"
proof (cases "i \<le> int (length xs)")
  case True
  with assms have "slice xs i (i + n) = take (nat (min (i + n) (int (length xs)) - i)) (drop (nat i) xs)"
    by (simp add: slice_def Let_def min_def)
  also have "\<dots> = take (min (nat n) (length xs - nat i)) (drop (nat i) xs)"
  proof -
    have "nat (min (i + n) (int (length xs)) - i) = min (nat n) (length xs - nat i)"
      using assms True by (simp add: min_def) linarith
    then show ?thesis by simp
  qed
  also have "\<dots> = take (nat n) (drop (nat i) xs)" by (simp add: min_def)
  finally show ?thesis .
next
  case False
  with assms show ?thesis by (simp add: slice_def Let_def min_def)
qed

lemma join_chars: "c \<in> set (join sep ys) \<Longrightarrow> c \<in> set sep \<or> (\<exists>y\<in>set ys. c \<in> set y)"
  by (induction sep ys rule: join.induct) auto

lemma window_loop_appends:
  assumes "window_loop ws cs ov i chunks idx = Some y"
  shows "\<exists>new. fst y = chunks @ new \<and> (i < int (length ws) \<longrightarrow> new \<noteq> [])
           \<and> (\<forall>c\<in>set new. \<exists>ys. set ys \<subseteq> set ws \<and> content c = join space ys)"
proof (rule window_loop.raw_induct
    [where P = "\<lambda>ws cs ov i chunks idx y.
       \<exists>new. fst y = chunks @ new \<and> (i < int (length ws) \<longrightarrow> new \<noteq> [])
           \<and> (\<forall>c\<in>set new. \<exists>ys. set ys \<subseteq> set ws \<and> content c = join space ys)", OF _ assms])
  fix loop :: "string list \<Rightarrow> int \<Rightarrow> int \<Rightarrow> int \<Rightarrow> chunk list \<Rightarrow> nat \<Rightarrow> (chunk list \<times> nat) option"
  fix ws cs ov i chunks idx y
  let ?c = "\<lparr>content = join space (slice ws i (i + cs)), chunkIndex = idx, pageNumber = 0\<rparr>"
  assume IH: "\<And>ws cs ov i chunks idx y. loop ws cs ov i chunks idx = Some y \<Longrightarrow>
       \<exists>new. fst y = chunks @ new \<and> (i < int (length ws) \<longrightarrow> new \<noteq> [])
           \<and> (\<forall>c\<in>set new. \<exists>ys. set ys \<subseteq> set ws \<and> content c = join space ys)"
  assume body: "(if i < int (length ws)
      then let chunkWords = slice ws i (i + cs);
               chunks' = chunks @ [\<lparr>content = join space chunkWords, chunkIndex = idx, pageNumber = 0\<rparr>]
           in if int (length ws) \<le> i + cs then Some (chunks', idx + 1)
              else loop ws cs ov (i + (cs - ov)) chunks' (idx + 1)
      else Some (chunks, idx)) = Some y"
  show "\<exists>new. fst y = chunks @ new \<and> (i < int (length ws) \<longrightarrow> new \<noteq> [])
           \<and> (\<forall>c\<in>set new. \<exists>ys. set ys \<subseteq> set ws \<and> content c = join space ys)"
  proof (cases "i < int (length ws)")
    case False
    with body show ?thesis by auto
  next
    case True
    have c: "\<exists>ys. set ys \<subseteq> set ws \<and> content ?c = join space ys"
      using slice_subset[of ws i "i + cs"] by auto
    show ?thesis
    proof (cases "int (length ws) \<le> i + cs")
      case True
      with \<open>i < int (length ws)\<close> body have "fst y = chunks @ [?c]" by (auto simp: Let_def)
      with c show ?thesis by auto
    next
      case False
      with \<open>i < int (length ws)\<close> body
      have "loop ws cs ov (i + (cs - ov)) (chunks @ [?c]) (idx + 1) = Some y" by (simp add: Let_def)
      from IH[OF this] obtain new where
        new: "fst y = (chunks @ [?c]) @ new"
          "\<forall>c\<in>set new. \<exists>ys. set ys \<subseteq> set ws \<and> content c = join space ys" by blast
      have "fst y = chunks @ (?c # new)" using new(1) by simp
      moreover have "\<forall>c\<in>set (?c # new). \<exists>ys. set ys \<subseteq> set ws \<and> content c = join space ys"
        using c new(2) by simp
      ultimately show ?thesis by blast
    qed
  qed
qed

lemma trim_Nil: "trim [] = []"
  by (simp add: trim_def)

lemma chunkText_single:
  assumes "trim text \<noteq> []"
  shows "chunkText text chunkSize overlap =
     (if int (length (textWords text)) > chunkSize
      then map_option fst (window_loop (textWords text) chunkSize overlap 0 [] 0)
      else Some [\<lparr>content = cleanedText text, chunkIndex = 0, pageNumber = 0\<rparr>])"
proof -
  from assms have ne: "text \<noteq> []" using trim_Nil by auto
  note w = cleanedText_trimmed textWords_def[symmetric]
  show ?thesis
  proof (cases "int (length (textWords text)) > chunkSize")
    case False
    then show ?thesis using assms ne
      by (simp add: chunkText_def paragraphs_single w Let_def)
  next
    case True
    show ?thesis
    proof (cases "window_loop (textWords text) chunkSize overlap 0 [] 0")
      case None
      then show ?thesis using assms ne True
        by (simp add: chunkText_def paragraphs_single w Let_def)
    next
      case (Some y)
      have "0 < int (length (textWords text))"
        using split_runs_nonempty[of isWhiteSpace "cleanedText text"] by (simp add: textWords_def)
      with window_loop_appends[OF Some] have "fst y \<noteq> []" by auto
      then show ?thesis using assms ne True Some
        by (cases y) (simp add: chunkText_def paragraphs_single w Let_def)
    qed
  qed
qed

lemma window_count_last:
  assumes "0 < step" "len \<le> i + cs"
  shows "window_count len cs step i = 1"
proof -
  from assms have "max (len - cs - i) 0 = 0" by simp
  moreover have "(step - 1) div step = 0" using assms(1) by (simp add: div_pos_pos_trivial)
  ultimately show ?thesis by (simp add: window_count_def)
qed

lemma window_count_step:
  assumes "0 < step" "i + cs < len"
  shows "window_count len cs step i = Suc (window_count len cs step (i + step))"
proof -
  define d where "d = len - cs - i"
  have d: "0 < d" using assms by (simp add: d_def)
  have l: "window_count len cs step i = nat ((d + step - 1) div step) + 1"
    using d by (simp add: window_count_def d_def)
  have r: "window_count len cs step (i + step) = nat ((max (d - step) 0 + step - 1) div step) + 1"
    by (simp add: window_count_def d_def algebra_simps)
  have "(d + step - 1) div step = (max (d - step) 0 + step - 1) div step + 1"
  proof (cases "step \<le> d")
    case True
    then have "max (d - step) 0 + step - 1 = d - 1" by simp
    moreover have "(d + step - 1) div step = (d - 1) div step + 1"
      using assms(1) div_add_self2[of step "d - 1"] by (simp add: algebra_simps)
    ultimately show ?thesis by simp
  next
    case False
    then have "max (d - step) 0 + step - 1 = step - 1" by simp
    moreover have "(step - 1) div step = 0" using assms(1) by (simp add: div_pos_pos_trivial)
    moreover have "(d + step - 1) div step = 1"
    proof -
      have "(d - 1 + step) div step = (d - 1) div step + 1"
        using assms(1) div_add_self2[of step "d - 1"] by simp
      moreover have "(d - 1) div step = 0" using d False by (simp add: div_pos_pos_trivial)
      ultimately show ?thesis by (simp add: algebra_simps)
    qed
    ultimately show ?thesis by simp
  qed
  moreover have "0 \<le> (max (d - step) 0 + step - 1) div step"
    using assms(1) by (simp add: pos_imp_zdiv_nonneg_iff)
  ultimately show ?thesis using l r by (simp add: nat_add_distrib)
qed

lemma window_loop_total:
  assumes "0 \<le> overlap" "overlap < chunkSize"
  shows "0 \<le> i \<Longrightarrow> i < int (length ws) \<Longrightarrow>
     window_loop ws chunkSize overlap i chunks idx =
       Some (chunks @ map (window_chunk ws chunkSize (chunkSize - overlap) i idx)
                        [0..<window_count (int (length ws)) chunkSize (chunkSize - overlap) i],
             idx + window_count (int (length ws)) chunkSize (chunkSize - overlap) i)"
proof (induction "nat (int (length ws) - i)" arbitrary: i chunks idx rule: less_induct)
  case less
  let ?len = "int (length ws)"
  let ?step = "chunkSize - overlap"
  let ?c = "\<lparr>content = join space (slice ws i (i + chunkSize)), chunkIndex = idx, pageNumber = 0\<rparr>"
  have step: "0 < ?step" using assms by simp
  have cs: "0 \<le> chunkSize" using assms by simp
  have c: "?c = window_chunk ws chunkSize ?step i idx 0"
    using less.prems(1) cs by (simp add: window_chunk_def slice_window)
  show ?case
  proof (cases "?len \<le> i + chunkSize")
    case True
    then have "window_loop ws chunkSize overlap i chunks idx = Some (chunks @ [?c], idx + 1)"
      using less.prems by (subst window_loop.simps) (simp add: Let_def)
    then show ?thesis using window_count_last[OF step True] c by simp
  next
    case False
    let ?i = "i + ?step"
    have i': "0 \<le> ?i" "?i < ?len" using less.prems False step assms by auto
    have "nat (?len - ?i) < nat (?len - i)" using step less.prems by simp
    from less.hyps[OF this i'] have IH:
      "window_loop ws chunkSize overlap ?i (chunks @ [?c]) (idx + 1) =
         Some ((chunks @ [?c]) @ map (window_chunk ws chunkSize ?step ?i (idx + 1))
                        [0..<window_count ?len chunkSize ?step ?i],
               (idx + 1) + window_count ?len chunkSize ?step ?i)" .
    have n: "window_count ?len chunkSize ?step i = Suc (window_count ?len chunkSize ?step ?i)"
      using step False by (intro window_count_step) auto
    have shift: "window_chunk ws chunkSize ?step ?i (Suc idx) k = window_chunk ws chunkSize ?step i idx (Suc k)" for k
      by (simp add: window_chunk_def algebra_simps)
    have "window_loop ws chunkSize overlap i chunks idx =
            window_loop ws chunkSize overlap ?i (chunks @ [?c]) (idx + 1)"
      using less.prems False by (subst window_loop.simps) (simp add: Let_def)
    then show ?thesis unfolding IH n by (simp add: map_upt_Suc shift c del: upt_Suc)
  qed
qed

section \<open>The chunker on one paragraph\<close>

lemma textWords_nonempty: "0 < length (textWords text)"
  using split_runs_nonempty[of isWhiteSpace "cleanedText text"] by (simp add: textWords_def)

lemma textWords_chars: "w \<in> set (textWords text) \<Longrightarrow> c \<in> set w \<Longrightarrow> c \<in> set (cleanedText text)"
  using split_runs_chars[of w isWhiteSpace "cleanedText text" c] by (simp add: textWords_def)

lemma whitespace_only_iff: "(text = [] \<or> trim text = []) \<longleftrightarrow> (\<forall>c\<in>set text. isWhiteSpace c)"
  using trim_empty_iff[of "text"] by auto

lemma chunkText_blank: "\<forall>c\<in>set text. isWhiteSpace c \<Longrightarrow> chunkText text chunkSize overlap = Some []"
  using whitespace_only_iff[of "text"] by (simp add: chunkText_def)

lemma chunkText_windows:
  assumes "trim text \<noteq> []" "0 \<le> overlap" "overlap < chunkSize"
    and "chunkSize < int (length (textWords text))"
  shows "chunkText text chunkSize overlap =
     Some (map (window_chunk (textWords text) chunkSize (chunkSize - overlap) 0 0)
            [0..<window_count (int (length (textWords text))) chunkSize (chunkSize - overlap) 0])"
proof -
  have "window_loop (textWords text) chunkSize overlap 0 [] 0 =
       Some ([] @ map (window_chunk (textWords text) chunkSize (chunkSize - overlap) 0 0)
                        [0..<window_count (int (length (textWords text))) chunkSize (chunkSize - overlap) 0],
             0 + window_count (int (length (textWords text))) chunkSize (chunkSize - overlap) 0)"
    using assms(2,3) textWords_nonempty[of "text"] by (intro window_loop_total) simp_all
  then show ?thesis using assms(1,4) by (simp add: chunkText_single)
qed

lemma chunkText_one:
  assumes "trim text \<noteq> []" "int (length (textWords text)) \<le> chunkSize"
  shows "chunkText text chunkSize overlap =
     Some [\<lparr>content = cleanedText text, chunkIndex = 0, pageNumber = 0\<rparr>]"
  using assms by (simp add: chunkText_single)

lemma chunkText_nonempty:
  assumes "trim text \<noteq> []" "chunkText text chunkSize overlap = Some chunks"
  shows "chunks \<noteq> []"
proof (cases "chunkSize < int (length (textWords text))")
  case False
  with assms show ?thesis by (auto simp: chunkText_single)
next
  case True
  with assms obtain y where y: "window_loop (textWords text) chunkSize overlap 0 [] 0 = Some y"
    and "chunks = fst y" by (auto simp: chunkText_single)
  with window_loop_appends[OF y] textWords_nonempty[of "text"] show ?thesis by auto
qed

lemma chunkText_contents:
  assumes "trim text \<noteq> []" "chunkText text chunkSize overlap = Some chunks" "c \<in> set chunks"
  shows "content c = cleanedText text
         \<or> (\<exists>ys. set ys \<subseteq> set (textWords text) \<and> content c = join space ys)"
proof (cases "chunkSize < int (length (textWords text))")
  case False
  with assms show ?thesis by (auto simp: chunkText_single)
next
  case True
  with assms obtain y where y: "window_loop (textWords text) chunkSize overlap 0 [] 0 = Some y"
    and "chunks = fst y" by (auto simp: chunkText_single)
  with window_loop_appends[OF y] assms(3) show ?thesis by auto
qed

lemma chunkText_terminates_aux:
  assumes "0 \<le> overlap" "overlap < chunkSize"
  shows "\<exists>chunks. chunkText text chunkSize overlap = Some chunks"
proof (cases "trim text = []")
  case True
  then show ?thesis by (simp add: chunkText_def)
next
  case False
  then show ?thesis using assms
    by (cases "chunkSize < int (length (textWords text))")
       (simp_all add: chunkText_windows chunkText_one)
qed

lemma map_chunkIndex_windows:
  "map chunkIndex (map (window_chunk ws cs step i 0) [0..<n]) = [0..<n]"
  by (simp add: window_chunk_def map_idI)

section \<open>Termination of the chunker, and the ranker on empty inputs\<close>

lemma window_loop_terminates:
  assumes "0 \<le> overlap" "overlap < chunkSize"
  shows "\<exists>r. window_loop ws chunkSize overlap 0 chunks idx = Some r"
proof (cases "0 < int (length ws)")
  case True
  then show ?thesis using window_loop_total[OF assms, of 0 ws chunks idx] by simp
next
  case False
  then show ?thesis by (subst window_loop.simps) simp
qed

lemma pack_terminates:
  assumes "0 \<le> overlap" "overlap < chunkSize"
  shows "\<exists>r. pack ps chunkSize overlap chunks currentChunk currentWordCount idx = Some r"
proof (induction ps arbitrary: chunks currentChunk currentWordCount idx)
  case Nil
  show ?case by simp
next
  case (Cons p ps)
  let ?ws = "split_runs isWhiteSpace (trim p)"
  show ?case
  proof (cases "chunkSize < int (length ?ws)")
    case True
    let ?chunks1 = "if currentChunk \<noteq> []
                    then chunks @ [\<lparr>content = join blank_line currentChunk,
                                    chunkIndex = idx, pageNumber = 0\<rparr>]
                    else chunks"
    let ?idx1 = "if currentChunk \<noteq> [] then idx + 1 else idx"
    obtain chunks2 idx2 where
      "window_loop ?ws chunkSize overlap 0 ?chunks1 ?idx1 = Some (chunks2, idx2)"
      using window_loop_terminates[OF assms, of ?ws ?chunks1 ?idx1] by auto
    then show ?thesis using True Cons.IH by (simp add: Let_def)
  next
    case False
    then show ?thesis using Cons.IH by (simp add: Let_def)
  qed
qed

text \<open>
  C6. For every input text and every \<open>chunkSize\<close> and \<open>overlap\<close> with
  \<open>chunkSize > overlap >= 0\<close>, \<open>chunkText\<close> terminates: the sliding-window loop returns on
  every word list, the loop over the paragraphs returns on every list of paragraphs and from
  every state, and so \<open>chunkText\<close> returns a list of chunks.
\<close>

theorem chunkText_terminates:
  assumes "0 \<le> overlap" "overlap < chunkSize"
  shows "(\<exists>r. window_loop ws chunkSize overlap 0 chunks idx = Some r)
       \<and> (\<exists>r. pack ps chunkSize overlap chunks currentChunk currentWordCount idx = Some r)
       \<and> (\<exists>result. chunkText text chunkSize overlap = Some result)"
  using window_loop_terminates[OF assms] pack_terminates[OF assms]
    chunkText_terminates_aux[OF assms] by blast

theorem chunkText_terminates_witness:
  "(0::int) \<le> 1 \<and> (1::int) < 3
   \<and> (\<exists>r. window_loop [''a'', ''b'', ''c'', ''d''] 3 1 0 [] 0 = Some r)
   \<and> (\<exists>r. pack [''a b'', ''c d e f''] 3 1 [] [] 0 0 = Some r)
   \<and> (\<exists>result. chunkText ''a b c d e f g h'' 3 1 = Some result)"
  using chunkText_terminates[of 1 3 "[''a'', ''b'', ''c'', ''d'']" "[]" 0 "[''a b'', ''c d e f'']" "[]" 0
      "''a b c d e f g h''"]
  by simp

text \<open>
  C9. For every chunk list, query and \<open>topK\<close>: if the chunk list is empty or the query is
  empty, \<open>findRelevantChunks\<close> returns the empty list, and raises no error.
\<close>

theorem findRelevantChunks_empty:
  "chunks = [] \<or> query = [] \<Longrightarrow> findRelevantChunks chunks query topK = Inr []"
  by (auto simp: findRelevantChunks_def)

theorem findRelevantChunks_empty_witness:
  "findRelevantChunks [] ''anything'' 5 = Inr []
   \<and> findRelevantChunks [\<lparr>content = ''Paris is great'', chunkIndex = 0, pageNumber = 0\<rparr>] [] 5 = Inr []"
  using findRelevantChunks_empty[of "[]" "''anything''" 5]
    findRelevantChunks_empty[of "[\<lparr>content = ''Paris is great'', chunkIndex = 0, pageNumber = 0\<rparr>]" "[]" 5]
  by simp

section \<open>Blank texts, chunk indices and newlines\<close>

lemma cleanedText_whitespace: "c \<in> set (cleanedText text) \<Longrightarrow> isWhiteSpace c \<Longrightarrow> c = CHR 0x20"
proof -
  assume "c \<in> set (cleanedText text)" and w: "isWhiteSpace c"
  then have "c \<in> set (collapse_ws (replace2 (CHR 0x0D) (CHR 0x0A) [CHR 0x0A] text))"
    using trim_subset by (auto simp: cleanedText_eq)
  then show ?thesis using w by (rule collapse_ws_chars)
qed

lemma chunk_no_newline:
  assumes "chunkText text chunkSize overlap = Some chunks" "c \<in> set chunks"
  shows "CHR 0x0A \<notin> set (content c)"
proof (cases "trim text = []")
  case True
  with assms show ?thesis by (simp add: chunkText_def)
next
  case False
  from chunkText_contents[OF False assms] show ?thesis
  proof
    assume "content c = cleanedText text"
    then show ?thesis using cleanedText_no_newline[of "text"] by simp
  next
    assume "\<exists>ys. set ys \<subseteq> set (textWords text) \<and> content c = join space ys"
    then obtain ys where ys: "set ys \<subseteq> set (textWords text)" "content c = join space ys" by blast
    show ?thesis
    proof
      assume "CHR 0x0A \<in> set (content c)"
      then have "CHR 0x0A \<in> set space \<or> (\<exists>y\<in>set ys. CHR 0x0A \<in> set y)"
        using ys(2) join_chars by simp
      then obtain y where "y \<in> set ys" "CHR 0x0A \<in> set y" by (auto simp: space_def)
      then have "CHR 0x0A \<in> set (cleanedText text)" using ys(1) textWords_chars by blast
      then show False using cleanedText_no_newline by simp
    qed
  qed
qed

text \<open>
  C10. For every input text and all parameters, no chunk that \<open>chunkText\<close> returns has a
  newline in its content. The normalisation replaces every run of white space, newlines
  included, by one space (the only white space left in the normalised text is the space), so
  the split into paragraphs of a text that is not blank yields that text as its single
  paragraph, and no chunk contains a blank-line separator.
\<close>

theorem chunkText_no_newline:
  "(\<forall>c\<in>set (cleanedText text). isWhiteSpace c \<longrightarrow> c = CHR 0x20)
   \<and> ((\<exists>c\<in>set text. \<not> isWhiteSpace c) \<longrightarrow> paragraphs (cleanedText text) = [cleanedText text])
   \<and> (\<forall>chunks. chunkText text chunkSize overlap = Some chunks \<longrightarrow>
         (\<forall>c\<in>set chunks. CHR 0x0A \<notin> set (content c)))"
  using cleanedText_whitespace[of _ "text"] paragraphs_single[of "text"] trim_empty_iff[of "text"]
    chunk_no_newline[of "text" chunkSize overlap]
  by blast

theorem chunkText_no_newline_witness:
  "(\<exists>c\<in>set [CHR ''a'', CHR 0x0A, CHR 0x0A, CHR ''b'']. \<not> isWhiteSpace c)
   \<and> paragraphs (cleanedText [CHR ''a'', CHR 0x0A, CHR 0x0A, CHR ''b''])
       = [cleanedText [CHR ''a'', CHR 0x0A, CHR 0x0A, CHR ''b'']]
   \<and> chunkText [CHR ''a'', CHR 0x0A, CHR 0x0A, CHR ''b''] 500 50
       = Some [\<lparr>content = ''a b'', chunkIndex = 0, pageNumber = 0\<rparr>]
   \<and> CHR 0x0A \<notin> set (content \<lparr>content = ''a b'', chunkIndex = 0, pageNumber = 0\<rparr>)"
proof -
  let ?t = "[CHR ''a'', CHR 0x0A, CHR 0x0A, CHR ''b'']"
  have e: "chunkText ?t 500 50 = Some [\<lparr>content = ''a b'', chunkIndex = 0, pageNumber = 0\<rparr>]"
    by code_simp
  have n: "\<exists>c\<in>set ?t. \<not> isWhiteSpace c" by (simp add: isWhiteSpace_def)
  from chunkText_no_newline[of ?t 500 50] e n show ?thesis by simp
qed


text \<open>
  C4. \<open>chunkText\<close> returns the empty list exactly when the input text is empty or consists
  of white space only (with any parameters); for every other text, with the default
  \<open>chunkSize = 500\<close> and \<open>overlap = 50\<close>, it returns a list that is not empty and whose
  \<open>chunkIndex\<close> values are 0, 1, 2, ... in this order.
\<close>

theorem chunkText_empty_iff_blank:
  "((chunkText text chunkSize overlap = Some []) = (\<forall>c\<in>set text. isWhiteSpace c))
   \<and> ((\<exists>c\<in>set text. \<not> isWhiteSpace c) \<longrightarrow>
        (\<exists>chunks. chunkText text 500 50 = Some chunks \<and> chunks \<noteq> []
                  \<and> map chunkIndex chunks = [0..<length chunks]))"
proof (intro conjI impI)
  show "(chunkText text chunkSize overlap = Some []) = (\<forall>c\<in>set text. isWhiteSpace c)"
    using chunkText_blank[of "text" chunkSize overlap]
      chunkText_nonempty[of "text" chunkSize overlap "[]"] trim_empty_iff[of "text"]
    by blast
next
  assume "\<exists>c\<in>set text. \<not> isWhiteSpace c"
  then have t: "trim text \<noteq> []" by (simp add: trim_empty_iff)
  show "\<exists>chunks. chunkText text 500 50 = Some chunks \<and> chunks \<noteq> []
                  \<and> map chunkIndex chunks = [0..<length chunks]"
  proof (cases "500 < int (length (textWords text))")
    case False
    then show ?thesis using chunkText_one[OF t, of 500 50] by simp
  next
    case True
    define n where "n = window_count (int (length (textWords text))) 500 (500 - 50) 0"
    have "chunkText text 500 50 =
      Some (map (window_chunk (textWords text) 500 (500 - 50) 0 0) [0..<n])"
      unfolding n_def using t _ _ True by (rule chunkText_windows) simp_all
    moreover have "0 < n" by (simp add: n_def window_count_def)
    ultimately show ?thesis using map_chunkIndex_windows by simp
  qed
qed

theorem chunkText_empty_iff_blank_witness:
  "chunkText [] 500 50 = Some [] \<and> list_all isWhiteSpace []
   \<and> chunkText ''   '' 500 50 = Some [] \<and> list_all isWhiteSpace ''   ''
   \<and> (\<exists>c\<in>set ''hello world''. \<not> isWhiteSpace c)
   \<and> (\<exists>chunks. chunkText ''hello world'' 500 50 = Some chunks \<and> chunks \<noteq> []
                  \<and> map chunkIndex chunks = [0..<length chunks])"
proof -
  have a: "\<forall>c\<in>set ''   ''. isWhiteSpace c" by (simp add: isWhiteSpace_def)
  have b: "\<exists>c\<in>set ''hello world''. \<not> isWhiteSpace c" by (simp add: isWhiteSpace_def)
  from chunkText_empty_iff_blank[of "[]" 500 50] chunkText_empty_iff_blank[of "''   ''" 500 50]
    chunkText_empty_iff_blank[of "''hello world''" 500 50] a b
  show ?thesis by (simp add: list_all_iff)
qed

section \<open>Words joined by single spaces\<close>

lemma words_ok_Cons: "words_ok (y # ys) \<longleftrightarrow> y \<noteq> [] \<and> (\<forall>c\<in>set y. \<not> isWhiteSpace c) \<and> words_ok ys"
  by (auto simp: words_ok_def)

lemma words_ok_subset: "words_ok ys \<Longrightarrow> set zs \<subseteq> set ys \<Longrightarrow> words_ok zs"
  by (auto simp: words_ok_def)

lemma isWhiteSpace_space: "isWhiteSpace (CHR 0x20)"
  by (simp add: isWhiteSpace_def)

lemma join_ends:
  "words_ok ys \<Longrightarrow> ys \<noteq> [] \<Longrightarrow>
     join space ys \<noteq> [] \<and> \<not> isWhiteSpace (hd (join space ys)) \<and> \<not> isWhiteSpace (last (join space ys))"
proof (induction space ys rule: join.induct)
  case 1
  then show ?case by simp
next
  case (2 x)
  then show ?case by (cases x) (auto simp: words_ok_Cons)
next
  case (3 x y ys)
  then have "join space (y # ys) \<noteq> []" "\<not> isWhiteSpace (last (join space (y # ys)))"
    by (simp_all add: words_ok_Cons)
  moreover from 3 have "x \<noteq> []" "\<not> isWhiteSpace (hd x)" by (cases x; simp add: words_ok_Cons)+
  ultimately show ?case by (simp add: space_def)
qed

lemma split_runs_append:
  "\<forall>c\<in>set x. \<not> P c \<Longrightarrow>
     split_runs P (x @ s) = (x @ hd (split_runs P s)) # tl (split_runs P s)"
proof (induction x)
  case Nil
  show ?case using split_runs_nonempty[of P s] by simp
next
  case (Cons c x)
  then show ?case by simp
qed

lemma dropWhile_hd: "s \<noteq> [] \<Longrightarrow> \<not> P (hd s) \<Longrightarrow> dropWhile P s = s"
  by (cases s) auto

lemma split_join:
  "words_ok ys \<Longrightarrow> ys \<noteq> [] \<Longrightarrow> split_runs isWhiteSpace (join space ys) = ys"
proof (induction space ys rule: join.induct)
  case 1
  then show ?case by simp
next
  case (2 x)
  then show ?case by (simp add: words_ok_Cons split_runs_none)
next
  case (3 x y ys)
  let ?t = "join space (y # ys)"
  from 3 have ok: "words_ok (y # ys)" and x: "\<forall>c\<in>set x. \<not> isWhiteSpace c"
    by (simp_all add: words_ok_Cons)
  from join_ends[OF ok] have "dropWhile isWhiteSpace ?t = ?t" by (simp add: dropWhile_hd)
  then have "split_runs isWhiteSpace (CHR 0x20 # ?t) = [] # (y # ys)"
    using 3 ok by (simp add: isWhiteSpace_space)
  then show ?case using split_runs_append[OF x, of "CHR 0x20 # ?t"] by (simp add: space_def)
qed

lemma collapse_ws_append:
  "\<forall>c\<in>set x. \<not> isWhiteSpace c \<Longrightarrow> collapse_ws (x @ s) = x @ collapse_ws s"
  by (induction x) auto

lemma collapse_join:
  "words_ok ys \<Longrightarrow> collapse_ws (join space ys) = join space ys"
proof (induction space ys rule: join.induct)
  case 1
  show ?case by simp
next
  case (2 x)
  then show ?case using collapse_ws_append[of x "[]"] by (simp add: words_ok_Cons)
next
  case (3 x y ys)
  let ?t = "join space (y # ys)"
  from 3 have ok: "words_ok (y # ys)" and x: "\<forall>c\<in>set x. \<not> isWhiteSpace c"
    by (simp_all add: words_ok_Cons)
  from join_ends[OF ok] have "dropWhile isWhiteSpace ?t = ?t" by (simp add: dropWhile_hd)
  then have "collapse_ws (CHR 0x20 # ?t) = CHR 0x20 # ?t"
    using 3 ok by (simp add: isWhiteSpace_space)
  then show ?case using collapse_ws_append[OF x, of "CHR 0x20 # ?t"] by (simp add: space_def)
qed

lemma trim_join: "words_ok ys \<Longrightarrow> trim (join space ys) = join space ys"
proof (cases "ys = []")
  case True
  then show ?thesis by (simp add: trim_Nil)
next
  case False
  assume "words_ok ys"
  from join_ends[OF this False] show ?thesis by (simp add: trim_id)
qed

lemma wordCount_join: "words_ok ys \<Longrightarrow> ys \<noteq> [] \<Longrightarrow> wordCount (join space ys) = length ys"
  by (simp add: wordCount_def trim_join split_join)

lemma join_no_cr: "words_ok ys \<Longrightarrow> CHR 0x0D \<notin> set (join space ys)"
proof
  assume ok: "words_ok ys" and "CHR 0x0D \<in> set (join space ys)"
  then have "CHR 0x0D \<in> set space \<or> (\<exists>y\<in>set ys. CHR 0x0D \<in> set y)" using join_chars by simp
  then show False using ok by (auto simp: space_def words_ok_def isWhiteSpace_def)
qed

lemma cleanedText_join: "words_ok ys \<Longrightarrow> cleanedText (join space ys) = join space ys"
  by (simp add: cleanedText_eq replace2_absent_fst join_no_cr collapse_join trim_join)

lemma textWords_join: "words_ok ys \<Longrightarrow> ys \<noteq> [] \<Longrightarrow> textWords (join space ys) = ys"
  by (simp add: textWords_def cleanedText_join split_join)

lemma textWords_ok: "trim text \<noteq> [] \<Longrightarrow> words_ok (textWords text)"
  using textWords_words[of "text"] by (auto simp: words_ok_def)

section \<open>The word count of a chunk\<close>

lemma wordCount_cleanedText: "wordCount (cleanedText text) = length (textWords text)"
  by (simp add: wordCount_def textWords_def cleanedText_trimmed)

lemma wordCount_window:
  assumes "words_ok ws" "0 < chunkSize"
  shows "int (wordCount (content (window_chunk ws chunkSize step i idx k))) \<le> chunkSize"
proof -
  define ys where "ys = take (nat chunkSize) (drop (nat (i + int k * step)) ws)"
  have c: "content (window_chunk ws chunkSize step i idx k) = join space ys"
    by (simp add: window_chunk_def ys_def)
  have "set ys \<subseteq> set (drop (nat (i + int k * step)) ws)"
    unfolding ys_def by (rule set_take_subset)
  also have "\<dots> \<subseteq> set ws" by (rule set_drop_subset)
  finally have ok: "words_ok ys" using assms(1) words_ok_subset by blast
  have len: "int (length ys) \<le> chunkSize" using assms(2) by (simp add: ys_def)
  show ?thesis
  proof (cases "ys = []")
    case True
    have "wordCount [] = 1" by (simp add: wordCount_def trim_Nil)
    then show ?thesis using assms(2) c True by simp
  next
    case False
    with ok have "wordCount (join space ys) = length ys" by (rule wordCount_join)
    then show ?thesis using len c by simp
  qed
qed

text \<open>
  C7. For every input text and parameters with \<open>chunkSize > overlap >= 0\<close>, no chunk that
  \<open>chunkText\<close> returns has more than \<open>chunkSize\<close> words; this holds for the chunk of a
  paragraph that fits and for every sliding-window chunk, so the exception that the claim
  allows is never needed.
\<close>

theorem chunk_word_count_bound:
  assumes "0 \<le> overlap" "overlap < chunkSize"
    and "chunkText text chunkSize overlap = Some chunks" "c \<in> set chunks"
  shows "int (wordCount (content c)) \<le> chunkSize"
proof (cases "trim text = []")
  case True
  with assms(3,4) show ?thesis by (simp add: chunkText_def)
next
  case False
  show ?thesis
  proof (cases "chunkSize < int (length (textWords text))")
    case fits: False
    with assms(3,4) False have "content c = cleanedText text" by (auto simp: chunkText_one)
    then show ?thesis using fits by (simp add: wordCount_cleanedText)
  next
    case True
    define n where "n = window_count (int (length (textWords text))) chunkSize (chunkSize - overlap) 0"
    have "chunkText text chunkSize overlap =
        Some (map (window_chunk (textWords text) chunkSize (chunkSize - overlap) 0 0) [0..<n])"
      unfolding n_def using False assms(1,2) True by (rule chunkText_windows)
    with assms(3) have "chunks = map (window_chunk (textWords text) chunkSize (chunkSize - overlap) 0 0) [0..<n]"
      by simp
    with assms(4) have "c \<in> window_chunk (textWords text) chunkSize (chunkSize - overlap) 0 0 ` set [0..<n]"
      by (simp only: set_map)
    then obtain k where "c = window_chunk (textWords text) chunkSize (chunkSize - overlap) 0 0 k"
      by blast
    moreover have "0 < chunkSize" using assms(1,2) by simp
    ultimately show ?thesis using wordCount_window[OF textWords_ok[OF False]] by simp
  qed
qed

theorem chunk_word_count_bound_witness:
  "(0::int) \<le> 1 \<and> (1::int) < 3
   \<and> chunkText ''a b c d e f g h'' 3 1 =
       Some [\<lparr>content = ''a b c'', chunkIndex = 0, pageNumber = 0\<rparr>,
             \<lparr>content = ''c d e'', chunkIndex = 1, pageNumber = 0\<rparr>,
             \<lparr>content = ''e f g'', chunkIndex = 2, pageNumber = 0\<rparr>,
             \<lparr>content = ''g h'', chunkIndex = 3, pageNumber = 0\<rparr>]
   \<and> int (wordCount (content \<lparr>content = ''c d e'', chunkIndex = 1, pageNumber = 0\<rparr>)) \<le> 3"
proof -
  have e: "chunkText ''a b c d e f g h'' 3 1 =
       Some [\<lparr>content = ''a b c'', chunkIndex = 0, pageNumber = 0\<rparr>,
             \<lparr>content = ''c d e'', chunkIndex = 1, pageNumber = 0\<rparr>,
             \<lparr>content = ''e f g'', chunkIndex = 2, pageNumber = 0\<rparr>,
             \<lparr>content = ''g h'', chunkIndex = 3, pageNumber = 0\<rparr>]"
    by code_simp
  from chunk_word_count_bound[OF _ _ e, of "\<lparr>content = ''c d e'', chunkIndex = 1, pageNumber = 0\<rparr>"] e
  show ?thesis by simp
qed

lemma replace2_subset: "c \<in> set (replace2 a b r s) \<Longrightarrow> c \<in> set s \<or> c \<in> set r"
  by (induction a b r s rule: replace2.induct) (auto split: if_splits)

lemma collapse_ws_subset: "c \<in> set (collapse_ws s) \<Longrightarrow> c \<in> set s \<or> c = CHR 0x20"
proof (induction s rule: collapse_ws.induct)
  case 1
  then show ?case by simp
next
  case (2 d ds)
  then show ?case using set_dropWhileD[of c isWhiteSpace ds] by (auto split: if_splits)
qed

lemma cleanedText_blank: "trim text = [] \<Longrightarrow> cleanedText text = []"
proof -
  assume "trim text = []"
  then have b: "\<forall>c\<in>set text. isWhiteSpace c" by (simp add: trim_empty_iff)
  have "\<forall>c\<in>set (collapse_ws (replace2 (CHR 0x0D) (CHR 0x0A) [CHR 0x0A] text)). isWhiteSpace c"
  proof
    fix c assume "c \<in> set (collapse_ws (replace2 (CHR 0x0D) (CHR 0x0A) [CHR 0x0A] text))"
    then have "c \<in> set (replace2 (CHR 0x0D) (CHR 0x0A) [CHR 0x0A] text) \<or> c = CHR 0x20"
      by (rule collapse_ws_subset)
    then have "c \<in> set text \<or> c = CHR 0x0A \<or> c = CHR 0x20" using replace2_subset by fastforce
    then show "isWhiteSpace c" using b by (auto simp: isWhiteSpace_def)
  qed
  then show ?thesis by (simp add: cleanedText_eq trim_empty_iff)
qed

lemma long_text_not_blank: "1 < length (textWords text) \<Longrightarrow> trim text \<noteq> []"
proof
  assume "1 < length (textWords text)" "trim text = []"
  then show False using cleanedText_blank[of "text"] by (simp add: textWords_def)
qed

section \<open>The number of windows with the default parameters\<close>

lemma div_450_bounds:
  fixes a :: int
  shows "450 * (a div 450) \<le> a" and "a < 450 * (a div 450) + 450"
proof -
  have e: "450 * (a div 450) + a mod 450 = a" by (rule mult_div_mod_eq)
  have "0 \<le> a mod 450" by simp
  with e show "450 * (a div 450) \<le> a" by linarith
  have "a mod 450 < 450" by simp
  with e show "a < 450 * (a div 450) + 450" by linarith
qed

lemma default_window_count_div:
  assumes "500 < W"
  shows "int (window_count W 500 450 0) = (W - 51) div 450 + 1"
proof -
  have "max (W - 500 - 0) 0 + 450 - 1 = W - 51" using assms by simp
  then have "window_count W 500 450 0 = nat ((W - 51) div 450) + 1"
    unfolding window_count_def by (simp only:)
  moreover have "0 \<le> (W - 51) div 450" using assms by (simp add: pos_imp_zdiv_nonneg_iff)
  ultimately show ?thesis by simp
qed

lemma ceiling_div_450:
  assumes "500 < W"
  shows "\<lceil>real_of_int (max (W - 500) 0) / 450\<rceil> = (W - 51) div 450"
proof -
  let ?d = "W - 500"
  have "\<lceil>real_of_int ?d / real_of_int 450\<rceil> = - (- ?d div 450)" by (rule ceiling_divide_eq_div)
  moreover have "- (- ?d div 450) = (W - 51) div 450"
  proof -
    have a: "450 * (- ?d div 450) \<le> - ?d" "- ?d < 450 * (- ?d div 450) + 450"
      by (rule div_450_bounds)+
    have b: "450 * ((W - 51) div 450) \<le> W - 51" "W - 51 < 450 * ((W - 51) div 450) + 450"
      by (rule div_450_bounds)+
    from a b show ?thesis by linarith
  qed
  moreover have "max ?d 0 = ?d" using assms by simp
  ultimately show ?thesis by simp
qed

lemma default_window_count:
  assumes "500 < W"
  shows "int (window_count W 500 450 0) = \<lceil>real_of_int (max (W - 500) 0) / 450\<rceil> + 1"
  using default_window_count_div[OF assms] ceiling_div_450[OF assms] by (simp only:)

lemma default_window_last:
  assumes "500 < W" "n = window_count W 500 450 0"
  shows "450 * (int n - 1) < W" and "W \<le> 450 * (int n - 1) + 500"
    and "\<forall>k. int k < int n - 1 \<longrightarrow> 450 * int k + 500 < W"
proof -
  define q where "q = (W - 51) div 450"
  have n: "int n = q + 1" using assms default_window_count_div by (simp add: q_def)
  have lo: "450 * q \<le> W - 51" and hi: "W - 51 < 450 * q + 450"
    unfolding q_def by (rule div_450_bounds)+
  have n1: "int n - 1 = q" using n by simp
  show "450 * (int n - 1) < W" unfolding n1 using lo by linarith
  show "W \<le> 450 * (int n - 1) + 500" unfolding n1 using hi by linarith
  show "\<forall>k. int k < int n - 1 \<longrightarrow> 450 * int k + 500 < W"
  proof (intro allI impI)
    fix k assume "int k < int n - 1"
    then have "int k + 1 \<le> q" using n by linarith
    then have "450 * int k + 450 \<le> 450 * q" by simp
    then show "450 * int k + 500 < W" using lo by simp
  qed
qed

lemma default_windows:
  assumes "500 < length (textWords text)"
  shows "chunkText text 500 50 =
     Some (map (\<lambda>k. \<lparr>content = join space (take 500 (drop (450 * k) (textWords text))),
                     chunkIndex = k, pageNumber = 0\<rparr>)
            [0..<window_count (int (length (textWords text))) 500 450 0])"
proof -
  have t: "trim text \<noteq> []" using assms by (intro long_text_not_blank) simp
  have "chunkText text 500 50 =
     Some (map (window_chunk (textWords text) 500 (500 - 50) 0 0)
            [0..<window_count (int (length (textWords text))) 500 (500 - 50) 0])"
    using t _ _ _ by (rule chunkText_windows) (use assms in simp_all)
  moreover have "window_chunk (textWords text) 500 (500 - 50) 0 0 =
     (\<lambda>k. \<lparr>content = join space (take 500 (drop (450 * k) (textWords text))),
                     chunkIndex = k, pageNumber = 0\<rparr>)"
    by (rule ext) (simp add: window_chunk_def nat_mult_distrib mult.commute)
  ultimately show ?thesis by simp
qed

text \<open>
  C5. For every text whose single paragraph has \<open>W > 500\<close> words, \<open>chunkText\<close> with
  \<open>chunkSize = 500\<close> and \<open>overlap = 50\<close> returns exactly \<open>ceil(max(W - 500, 0) / 450) + 1\<close>
  chunks; the \<open>k\<close>-th is the window of the 500 words from word \<open>450 * k\<close> on, joined by
  single spaces. No window before the last reaches word \<open>W\<close>, and the last window starts
  before word \<open>W\<close> and runs to the end of the paragraph: it ends exactly at word \<open>W\<close>.
\<close>

theorem sliding_window_count:
  assumes "length (textWords text) = W" "500 < W"
  shows "\<exists>chunks. chunkText text 500 50 = Some chunks
     \<and> int (length chunks) = \<lceil>real_of_int (max (int W - 500) 0) / 450\<rceil> + 1
     \<and> (\<forall>k<length chunks.
           chunks ! k = \<lparr>content = join space (take 500 (drop (450 * k) (textWords text))),
                          chunkIndex = k, pageNumber = 0\<rparr>)
     \<and> (\<forall>k. k + 1 < length chunks \<longrightarrow> 450 * k + 500 < W)
     \<and> 450 * (length chunks - 1) < W \<and> W \<le> 450 * (length chunks - 1) + 500
     \<and> content (last chunks) = join space (drop (450 * (length chunks - 1)) (textWords text))"
proof -
  define n where "n = window_count (int W) 500 450 0"
  define chunks where "chunks =
     map (\<lambda>k. \<lparr>content = join space (take 500 (drop (450 * k) (textWords text))),
                     chunkIndex = k, pageNumber = 0\<rparr>) [0..<n]"
  have W: "500 < int W" using assms(2) by simp
  have r: "chunkText text 500 50 = Some chunks"
    using default_windows[of "text"] assms by (simp add: chunks_def n_def)
  have len: "length chunks = n" by (simp add: chunks_def)
  have pos: "0 < n" by (simp add: n_def window_count_def)
  have count: "int (length chunks) = \<lceil>real_of_int (max (int W - 500) 0) / 450\<rceil> + 1"
    unfolding len n_def using W by (rule default_window_count)
  have nth: "\<forall>k<length chunks.
           chunks ! k = \<lparr>content = join space (take 500 (drop (450 * k) (textWords text))),
                          chunkIndex = k, pageNumber = 0\<rparr>"
    by (simp add: chunks_def)
  have before: "\<forall>k. k + 1 < length chunks \<longrightarrow> 450 * k + 500 < W"
  proof (intro allI impI)
    fix k assume "k + 1 < length chunks"
    then have "int k < int n - 1" using len by simp
    with default_window_last(3)[OF W n_def] have "450 * int k + 500 < int W" by blast
    then show "450 * k + 500 < W" by linarith
  qed
  have e: "int (450 * (length chunks - 1)) = 450 * (int n - 1)"
    using pos len by (simp add: of_nat_diff)
  have lo: "450 * (length chunks - 1) < W"
    using default_window_last(1)[OF W n_def] e by linarith
  have hi: "W \<le> 450 * (length chunks - 1) + 500"
    using default_window_last(2)[OF W n_def] e by linarith
  have "chunks \<noteq> []" using pos len by auto
  then have "last chunks = chunks ! (length chunks - 1)" by (rule last_conv_nth)
  then have "last chunks = chunks ! (n - 1)" using len by simp
  also have "\<dots> = \<lparr>content = join space (take 500 (drop (450 * (n - 1)) (textWords text))),
                          chunkIndex = n - 1, pageNumber = 0\<rparr>"
    using nth pos len by simp
  finally have "content (last chunks) = join space (take 500 (drop (450 * (n - 1)) (textWords text)))"
    by simp
  moreover have "take 500 (drop (450 * (n - 1)) (textWords text)) = drop (450 * (n - 1)) (textWords text)"
    using hi len assms(1) by simp
  ultimately have lastc: "content (last chunks) = join space (drop (450 * (length chunks - 1)) (textWords text))"
    using len by simp
  from r count nth before lo hi lastc show ?thesis by blast
qed

lemma words_ok_replicate: "w \<noteq> [] \<Longrightarrow> \<forall>c\<in>set w. \<not> isWhiteSpace c \<Longrightarrow> words_ok (replicate n w)"
  by (simp add: words_ok_def)

theorem sliding_window_count_witness:
  "length (textWords (join space (replicate 501 ''a''))) = 501 \<and> (500::nat) < 501
   \<and> (\<exists>chunks. chunkText (join space (replicate 501 ''a'')) 500 50 = Some chunks
        \<and> length chunks = 2
        \<and> content (last chunks) = join space (drop 450 (textWords (join space (replicate 501 ''a'')))))"
proof -
  have ok: "words_ok (replicate 501 ''a'')"
    by (rule words_ok_replicate) (simp_all add: isWhiteSpace_def)
  have w: "textWords (join space (replicate 501 ''a'')) = replicate 501 ''a''"
    using ok by (rule textWords_join) simp
  then have l: "length (textWords (join space (replicate 501 ''a''))) = 501" by simp
  have c: "\<lceil>real_of_int (max (int 501 - 500) 0) / 450\<rceil> + 1 = 2"
    by (simp add: ceiling_eq_iff)
  from sliding_window_count[OF l] obtain chunks where
    "chunkText (join space (replicate 501 ''a'')) 500 50 = Some chunks"
    "int (length chunks) = \<lceil>real_of_int (max (int 501 - 500) 0) / 450\<rceil> + 1"
    "content (last chunks) =
       join space (drop (450 * (length chunks - 1)) (textWords (join space (replicate 501 ''a''))))"
    by auto
  then have "chunkText (join space (replicate 501 ''a'')) 500 50 = Some chunks \<and> length chunks = 2
    \<and> content (last chunks) = join space (drop 450 (textWords (join space (replicate 501 ''a''))))"
    using c by simp
  then show ?thesis using l by simp
qed

section \<open>The sort of the ranker\<close>

lemma chunk_of_with_score: "chunk_of (with_score c s) = c"
  by (simp add: chunk_of_def with_score_def)

lemma score_with_score: "score (with_score c s) = s"
  by (simp add: with_score_def)

lemma slice_take: "0 \<le> k \<Longrightarrow> slice xs 0 k = take (nat k) xs"
  using slice_window[of 0 k xs] by simp

lemma slice_0: "slice xs 0 k = take (nat (if k < 0 then int (length xs) + k else k)) xs"
proof (cases "k < 0")
  case True
  have "nat (max (int (length xs) + k) 0) = nat (int (length xs) + k)" by simp
  then show ?thesis using True by (simp add: slice_def Let_def)
next
  case False
  have "take (nat (min k (int (length xs)))) xs = take (min (nat k) (length xs)) xs"
    using False by (simp add: min_def)
  also have "\<dots> = take (nat k) xs" by (simp add: min_def)
  finally show ?thesis using False by (simp add: slice_def Let_def)
qed

lemma slice_map: "slice (map f xs) a b = map f (slice xs a b)"
  by (simp add: slice_def Let_def take_map drop_map)

lemma sort_insert_unscored:
  "score x = None \<Longrightarrow> sort_insert compareFn x ys = x # ys"
  by (cases ys) (simp_all add: compareFn_def comparator_value_def split: option.splits)

lemma js_sort_unscored: "\<forall>r\<in>set xs. score r = None \<Longrightarrow> js_sort compareFn xs = xs"
proof (induction xs)
  case Nil
  show ?case by (simp add: js_sort_def)
next
  case (Cons x xs)
  then have "js_sort compareFn xs = xs" by simp
  then have "js_sort compareFn (x # xs) = sort_insert compareFn x xs" by (simp add: js_sort_def)
  then show ?case using Cons.prems by (simp add: sort_insert_unscored)
qed

lemma sort_insert_scored:
  "score x \<noteq> None \<Longrightarrow> \<forall>r\<in>set ys. score r \<noteq> None \<Longrightarrow>
     sort_insert compareFn x ys = insort_key score_key x ys"
proof (induction ys)
  case Nil
  show ?case by simp
next
  case (Cons y ys)
  then obtain sx sy where "score x = Some sx" "score y = Some sy" by auto
  then have "comparator_value (compareFn x y) \<le> 0 \<longleftrightarrow> score_key x \<le> score_key y"
    by (simp add: compareFn_def comparator_value_def score_key_def)
  then show ?case using Cons by simp
qed

lemma js_sort_scored:
  "\<forall>r\<in>set xs. score r \<noteq> None \<Longrightarrow> js_sort compareFn xs = sort_key score_key xs"
proof (induction xs)
  case Nil
  show ?case by (simp add: js_sort_def)
next
  case (Cons x xs)
  then have IH: "js_sort compareFn xs = sort_key score_key xs" by simp
  have "\<forall>r\<in>set (sort_key score_key xs). score r \<noteq> None" using Cons.prems by simp
  then have "sort_insert compareFn x (sort_key score_key xs) = insort_key score_key x (sort_key score_key xs)"
    using Cons.prems by (intro sort_insert_scored) simp_all
  then show ?case using IH by (simp add: js_sort_def sort_key_def)
qed

lemma js_sort_uniform:
  assumes "(\<forall>r\<in>set xs. score r = None) \<or> (\<forall>r\<in>set xs. score r \<noteq> None)"
  shows "js_sort compareFn xs = sort_key score_key xs"
proof -
  from assms show ?thesis
  proof
    assume n: "\<forall>r\<in>set xs. score r = None"
    then have "\<forall>r\<in>set xs. score_key r = 0" by (simp add: score_key_def)
    then have "map score_key xs = replicate (length xs) 0" by (simp add: map_replicate_const[symmetric] cong: map_cong)
    then have "sorted (map score_key xs)" by (simp add: sorted_replicate)
    then have "sort_key score_key xs = xs" by (rule sort_key_id_if_sorted)
    then show ?thesis using js_sort_unscored[OF n] by simp
  next
    assume "\<forall>r\<in>set xs. score r \<noteq> None"
    then show ?thesis by (rule js_sort_scored)
  qed
qed

lemma scored_shape:
  "scored ws chunks = Inr rs \<Longrightarrow> map chunk_of rs = chunks \<and> (\<forall>r\<in>set rs. score r \<noteq> None)"
proof (induction chunks arbitrary: rs)
  case Nil
  then show ?case by simp
next
  case (Cons c chunks)
  then show ?case
    by (auto simp: chunk_of_with_score score_with_score split: sum.splits)
qed

lemma selected_uniform:
  assumes "\<forall>r\<in>set rs. score r \<noteq> None"
  shows "(\<forall>r\<in>set (selected rs chunks). score r = None)
       \<or> (\<forall>r\<in>set (selected rs chunks). score r \<noteq> None)"
  using assms by (auto simp: selected_def Let_def score_with_score)

lemma selected_subseq:
  assumes "map chunk_of rs = chunks"
  shows "subseq (map chunk_of (selected rs chunks)) chunks"
proof (cases "filter (\<lambda>c. case score c of None \<Rightarrow> False | Some sc \<Rightarrow> sc > 0) rs = []")
  case True
  then have "selected rs chunks = map (\<lambda>c. with_score c None) chunks" by (simp add: selected_def)
  then show ?thesis by (simp add: chunk_of_with_score comp_def)
next
  case False
  then have "selected rs chunks = filter (\<lambda>c. case score c of None \<Rightarrow> False | Some sc \<Rightarrow> sc > 0) rs"
    by (simp add: selected_def)
  moreover have "subseq (map chunk_of (filter (\<lambda>c. case score c of None \<Rightarrow> False | Some sc \<Rightarrow> sc > 0) rs))
                   (map chunk_of rs)"
    by (intro subseq_map subseq_filter_left)
  ultimately show ?thesis using assms by simp
qed

lemma candidates_shape:
  assumes "candidates chunks query = Inr cands"
  shows "subseq (map chunk_of cands) chunks"
    and "(\<forall>r\<in>set cands. score r = None) \<or> (\<forall>r\<in>set cands. score r \<noteq> None)"
proof -
  consider (empty) "chunks = [] \<or> query = []"
    | (nowords) "\<not> (chunks = [] \<or> query = [])" "queryWords query = []"
    | (sorted) "\<not> (chunks = [] \<or> query = [])" "queryWords query \<noteq> []" by blast
  then have "subseq (map chunk_of cands) chunks
     \<and> ((\<forall>r\<in>set cands. score r = None) \<or> (\<forall>r\<in>set cands. score r \<noteq> None))"
  proof cases
    case empty
    with assms have "cands = []" by (auto simp: candidates_def)
    then show ?thesis by simp
  next
    case nowords
    with assms have "cands = map (\<lambda>c. with_score c None) chunks" by (auto simp: candidates_def)
    then show ?thesis by (simp add: chunk_of_with_score score_with_score comp_def)
  next
    case sorted
    with assms obtain rs where rs: "scored (queryWords query) chunks = Inr rs"
      and c: "cands = selected rs chunks"
      by (auto simp: candidates_def split: sum.splits)
    from scored_shape[OF rs] show ?thesis
      unfolding c using selected_subseq[of rs chunks] selected_uniform[of rs chunks] by blast
  qed
  then show "subseq (map chunk_of cands) chunks"
    and "(\<forall>r\<in>set cands. score r = None) \<or> (\<forall>r\<in>set cands. score r \<noteq> None)" by simp_all
qed

lemma findRelevantChunks_candidates:
  "findRelevantChunks chunks query topK =
     (case candidates chunks query of
        Inl e \<Rightarrow> Inl e
      | Inr cands \<Rightarrow> Inr (slice (sort_key score_key cands) 0 topK))"
proof (cases "candidates chunks query")
  case (Inl e)
  then show ?thesis
    by (auto simp: findRelevantChunks_def candidates_def split: if_splits sum.splits)
next
  case (Inr cands)
  note u = js_sort_uniform[OF candidates_shape(2)[OF Inr]]
  consider (empty) "chunks = [] \<or> query = []"
    | (nowords) "\<not> (chunks = [] \<or> query = [])" "queryWords query = []"
    | (sorted) "\<not> (chunks = [] \<or> query = [])" "queryWords query \<noteq> []" by blast
  then show ?thesis
  proof cases
    case empty
    with Inr have "cands = []" by (auto simp: candidates_def)
    then show ?thesis using empty Inr by (auto simp: findRelevantChunks_def slice_def)
  next
    case nowords
    with Inr have c: "cands = map (\<lambda>c. with_score c None) chunks" by (auto simp: candidates_def)
    then have "\<forall>r\<in>set cands. score r = None" by (simp add: score_with_score)
    then have "js_sort compareFn cands = cands" by (rule js_sort_unscored)
    with u have "sort_key score_key cands = cands" by simp
    then show ?thesis using nowords Inr c by (simp add: findRelevantChunks_def)
  next
    case sorted
    with Inr obtain rs where rs: "scored (queryWords query) chunks = Inr rs"
      and c: "cands = selected rs chunks"
      by (auto simp: candidates_def split: sum.splits)
    then show ?thesis using sorted Inr u by (simp add: findRelevantChunks_def)
  qed
qed

lemma filter_score_sort:
  "filter (\<lambda>r. score r = s) (sort_key score_key xs) = filter (\<lambda>r. score r = s) xs"
proof -
  define k where "k = (case s of None \<Rightarrow> 0 | Some sc \<Rightarrow> - int sc)"
  have imp: "score r = s \<longleftrightarrow> score_key r = k \<and> score r = s" for r
    by (auto simp: k_def score_key_def)
  have "filter (\<lambda>r. score r = s) (sort_key score_key xs)
      = filter (\<lambda>r. score r = s) (filter (\<lambda>r. score_key r = k) (sort_key score_key xs))"
    using imp by (simp add: conj_commute cong: filter_cong)
  also have "\<dots> = filter (\<lambda>r. score r = s) (filter (\<lambda>r. score_key r = k) xs)"
    by (simp only: sort_key_stable)
  also have "\<dots> = filter (\<lambda>r. score r = s) xs"
    using imp by (simp add: conj_commute cong: filter_cong)
  finally show ?thesis .
qed

lemma sorted_by_score:
  "sorted_wrt (\<lambda>a b. \<forall>x y. score a = Some x \<longrightarrow> score b = Some y \<longrightarrow> y \<le> x)
     (take k (sort_key score_key xs))"
proof -
  have "sorted (map score_key (sort_key score_key xs))" by (rule sorted_sort_key)
  then have "sorted_wrt (\<lambda>a b. score_key a \<le> score_key b) (sort_key score_key xs)"
    by (simp add: sorted_map)
  then have "sorted_wrt (\<lambda>a b. \<forall>x y. score a = Some x \<longrightarrow> score b = Some y \<longrightarrow> y \<le> x)
               (sort_key score_key xs)"
    by (rule sorted_wrt_mono_rel[rotated]) (auto simp: score_key_def)
  then show ?thesis by (rule sorted_wrt_take)
qed

section \<open>The order of the ranked output\<close>

text \<open>
  C8. The output of \<open>findRelevantChunks\<close> is \<open>slice(0, topK)\<close> of the selected
  candidates in stable order of decreasing score. The candidates are taken from the chunk list
  in its order; the output is ordered by non-increasing score; the output entries of any one
  score are the first ones of the candidates with that score, in the candidates' order, so
  entries of equal score keep the order of the input; and for \<open>topK >= 0\<close> the output is
  the first \<open>topK\<close> entries and its length is \<open>min(topK, number of candidates)\<close>.
\<close>

theorem ranked_output_sorted_stable:
  assumes "findRelevantChunks chunks query topK = Inr out"
  shows "\<exists>cands. candidates chunks query = Inr cands
     \<and> subseq (map chunk_of cands) chunks
     \<and> out = slice (sort_key score_key cands) 0 topK
     \<and> sorted_wrt (\<lambda>a b. \<forall>x y. score a = Some x \<longrightarrow> score b = Some y \<longrightarrow> y \<le> x) out
     \<and> (\<forall>s. prefix (filter (\<lambda>r. score r = s) out) (filter (\<lambda>r. score r = s) cands))
     \<and> (0 \<le> topK \<longrightarrow> out = take (nat topK) (sort_key score_key cands)
                       \<and> length out = min (nat topK) (length cands))"
proof -
  from assms obtain cands where c: "candidates chunks query = Inr cands"
    and s: "out = slice (sort_key score_key cands) 0 topK"
    by (auto simp: findRelevantChunks_candidates split: sum.splits)
  define m where "m = nat (if topK < 0 then int (length (sort_key score_key cands)) + topK else topK)"
  have out: "out = take m (sort_key score_key cands)"
    unfolding s m_def by (rule slice_0)
  have stable: "prefix (filter (\<lambda>r. score r = s) out) (filter (\<lambda>r. score r = s) cands)" for s
  proof -
    have "prefix out (sort_key score_key cands)" unfolding out by (rule take_is_prefix)
    then have "prefix (filter (\<lambda>r. score r = s) out)
                 (filter (\<lambda>r. score r = s) (sort_key score_key cands))"
      by (rule filter_mono_prefix)
    then show ?thesis by (simp only: filter_score_sort)
  qed
  have ordered: "sorted_wrt (\<lambda>a b. \<forall>x y. score a = Some x \<longrightarrow> score b = Some y \<longrightarrow> y \<le> x) out"
    unfolding out by (rule sorted_by_score)
  have first: "0 \<le> topK \<longrightarrow> out = take (nat topK) (sort_key score_key cands)
                       \<and> length out = min (nat topK) (length cands)"
    by (simp add: out m_def min.commute)
  from c candidates_shape(1)[OF c] s ordered stable first show ?thesis by blast
qed

theorem ranked_output_sorted_stable_witness:
  "findRelevantChunks
     [\<lparr>content = ''Paris is great'', chunkIndex = 0, pageNumber = 0\<rparr>,
      \<lparr>content = ''Berlin is cold, Berlin'', chunkIndex = 1, pageNumber = 0\<rparr>,
      \<lparr>content = ''BERLIN paris'', chunkIndex = 2, pageNumber = 0\<rparr>,
      \<lparr>content = ''zzz'', chunkIndex = 3, pageNumber = 0\<rparr>]
     ''What is Berlin paris'' 2
   = Inr [\<lparr>content = ''Berlin is cold, Berlin'', chunkIndex = 1, pageNumber = 0, score = Some 2\<rparr>,
          \<lparr>content = ''BERLIN paris'', chunkIndex = 2, pageNumber = 0, score = Some 2\<rparr>]
   \<and> (0::int) \<le> 2
   \<and> (\<exists>cands. candidates
          [\<lparr>content = ''Paris is great'', chunkIndex = 0, pageNumber = 0\<rparr>,
           \<lparr>content = ''Berlin is cold, Berlin'', chunkIndex = 1, pageNumber = 0\<rparr>,
           \<lparr>content = ''BERLIN paris'', chunkIndex = 2, pageNumber = 0\<rparr>,
           \<lparr>content = ''zzz'', chunkIndex = 3, pageNumber = 0\<rparr>]
          ''What is Berlin paris'' = Inr cands
        \<and> [\<lparr>content = ''Berlin is cold, Berlin'', chunkIndex = 1, pageNumber = 0, score = Some 2\<rparr>,
           \<lparr>content = ''BERLIN paris'', chunkIndex = 2, pageNumber = 0, score = Some 2\<rparr>]
          = take (nat 2) (sort_key score_key cands)
        \<and> (\<forall>s. prefix
              (filter (\<lambda>r. score r = s)
                [\<lparr>content = ''Berlin is cold, Berlin'', chunkIndex = 1, pageNumber = 0, score = Some 2\<rparr>,
                 \<lparr>content = ''BERLIN paris'', chunkIndex = 2, pageNumber = 0, score = Some 2\<rparr>])
              (filter (\<lambda>r. score r = s) cands)))"
proof -
  let ?chunks = "[\<lparr>content = ''Paris is great'', chunkIndex = 0, pageNumber = 0\<rparr>,
      \<lparr>content = ''Berlin is cold, Berlin'', chunkIndex = 1, pageNumber = 0\<rparr>,
      \<lparr>content = ''BERLIN paris'', chunkIndex = 2, pageNumber = 0\<rparr>,
      \<lparr>content = ''zzz'', chunkIndex = 3, pageNumber = 0\<rparr>]"
  let ?out = "[\<lparr>content = ''Berlin is cold, Berlin'', chunkIndex = 1, pageNumber = 0, score = Some 2\<rparr>,
          \<lparr>content = ''BERLIN paris'', chunkIndex = 2, pageNumber = 0, score = Some 2\<rparr>]"
  have e: "findRelevantChunks ?chunks ''What is Berlin paris'' 2 = Inr ?out"
    by code_simp
  have z: "(0::int) \<le> 2" by simp
  from ranked_output_sorted_stable[OF e] e z show ?thesis by blast
qed

section \<open>The fall-back of the ranker, pattern syntax in query words, and paragraph breaks\<close>

lemma reduce_matches_zero:
  "\<forall>w\<in>set ws. (case RegExp w of Inl e \<Rightarrow> False | Inr re \<Rightarrow> count_matches re lowered = 0)
     \<Longrightarrow> reduce_matches ws lowered acc = Inr acc"
  by (induction ws arbitrary: acc) (auto split: sum.splits)

lemma scored_zero:
  "\<forall>c\<in>set chunks. \<forall>w\<in>set ws.
      (case RegExp w of Inl e \<Rightarrow> False | Inr re \<Rightarrow> count_matches re (toLowerCase (content c)) = 0)
     \<Longrightarrow> scored ws chunks = Inr (map (\<lambda>c. with_score c (Some 0)) chunks)"
  by (induction chunks) (simp_all add: reduce_matches_zero)

lemma selected_zero:
  "selected (map (\<lambda>c. with_score c (Some 0)) chunks) chunks = map (\<lambda>c. with_score c None) chunks"
proof -
  have "filter (\<lambda>c. case score c of None \<Rightarrow> False | Some sc \<Rightarrow> sc > 0)
          (map (\<lambda>c. with_score c (Some 0)) chunks) = []"
    by (simp add: filter_empty_conv score_with_score)
  then show ?thesis by (simp add: selected_def)
qed

lemma queryWords_Nil: "queryWords [] = []"
  by (simp add: queryWords_def toLowerCase_def)

text \<open>
  When every surviving query word builds a pattern and none of the patterns matches in any
  chunk's content, the ranker returns \<open>slice(0, topK)\<close> of the chunk list as it is.
\<close>

lemma fallback_unscored_aux:
  assumes "queryWords query \<noteq> []"
    and "\<forall>c\<in>set chunks. \<forall>w\<in>set (queryWords query).
           (case RegExp w of
              Inl e \<Rightarrow> False
            | Inr re \<Rightarrow> count_matches re (toLowerCase (content c)) = 0)"
  shows "\<exists>out. findRelevantChunks chunks query topK = Inr out
           \<and> map chunk_of out = slice chunks 0 topK
           \<and> (0 \<le> topK \<longrightarrow> map chunk_of out = take (nat topK) chunks)
           \<and> (\<forall>r\<in>set out. score r = None)"
proof -
  let ?u = "map (\<lambda>c. with_score c None) chunks"
  have q: "query \<noteq> []" using assms(1) queryWords_Nil by auto
  have u: "\<forall>r\<in>set ?u. score r = None" by (simp add: score_with_score)
  have r: "findRelevantChunks chunks query topK = Inr (slice ?u 0 topK)"
  proof (cases "chunks = []")
    case True
    then show ?thesis by (simp add: findRelevantChunks_def slice_def)
  next
    case False
    have "scored (queryWords query) chunks = Inr (map (\<lambda>c. with_score c (Some 0)) chunks)"
      using assms(2) by (rule scored_zero)
    then show ?thesis using False q assms(1) js_sort_unscored[OF u]
      by (simp add: findRelevantChunks_def selected_zero)
  qed
  have "map chunk_of ?u = chunks" by (simp add: chunk_of_with_score comp_def)
  then have m: "map chunk_of (slice ?u 0 topK) = slice chunks 0 topK"
    using slice_map[of chunk_of ?u 0 topK] by simp
  have t: "0 \<le> topK \<longrightarrow> map chunk_of (slice ?u 0 topK) = take (nat topK) chunks"
    unfolding m by (simp add: slice_take)
  have "\<forall>r\<in>set (slice ?u 0 topK). score r = None"
    using u slice_subset[of ?u 0 topK] by blast
  with r m t show ?thesis by blast
qed

text \<open>
  C2 at one input. The query word \<open>capital\<close> survives the filter and the chunk's content
  does not contain it: its score is 0, and the entry that the ranker returns is the chunk as
  it is, without a score.
\<close>

theorem fallback_entry_without_score:
  "queryWords ''capital'' = [''capital'']
   \<and> scored [''capital''] [\<lparr>content = ''Paris is great'', chunkIndex = 0, pageNumber = 0\<rparr>]
       = Inr [\<lparr>content = ''Paris is great'', chunkIndex = 0, pageNumber = 0, score = Some 0\<rparr>]
   \<and> findRelevantChunks [\<lparr>content = ''Paris is great'', chunkIndex = 0, pageNumber = 0\<rparr>]
         ''capital'' 5
       = Inr [\<lparr>content = ''Paris is great'', chunkIndex = 0, pageNumber = 0, score = None\<rparr>]"
  by code_simp

text \<open>
  C3 at two inputs. The query word \<open>c++\<close> survives the filter, and building its regular
  expression throws: the result is the error, although the content contains the word once.
  The query word \<open>a.c\<close> is read as a pattern and counts a match in \<open>abc\<close>, which does not
  contain it.
\<close>

theorem regex_metacharacters_not_literal:
  "queryWords ''c++'' = [''c++'']
   \<and> findRelevantChunks [\<lparr>content = ''c++ is fun'', chunkIndex = 0, pageNumber = 0\<rparr>] ''c++'' 5
       = Inl SyntaxError
   \<and> queryWords ''a.c'' = [''a.c'']
   \<and> findRelevantChunks [\<lparr>content = ''abc'', chunkIndex = 0, pageNumber = 0\<rparr>] ''a.c'' 5
       = Inr [\<lparr>content = ''abc'', chunkIndex = 0, pageNumber = 0, score = Some 1\<rparr>]"
  by code_simp

text \<open>
  C1 at the scenario of the specification: two paragraphs separated by a blank line, 12
  words in all. The chunker returns one chunk, and its content has the two paragraphs
  joined by one space: the paragraph break is lost.
\<close>

theorem paragraph_break_lost:
  "chunkText (''Paris is the capital of France.'' @ [CHR 0x0A, CHR 0x0A]
              @ ''Berlin is the capital of Germany.'') 500 50
     = Some [\<lparr>content = ''Paris is the capital of France. Berlin is the capital of Germany.'',
              chunkIndex = 0, pageNumber = 0\<rparr>]"
  by code_simp

section \<open>Query words without pattern syntax\<close>

text \<open>
  A query word without syntax characters is read as the literal pattern, and the score of a
  chunk is then the sum of the literal counts of the query words: on these words the ranker
  counts literally and raises no error.
\<close>

lemma quantifier_is_syntax: "isQuantifierChar c \<Longrightarrow> isSyntaxCharacter c"
  by (auto simp: isQuantifierChar_def isSyntaxCharacter_def)

lemma parse_quantifier_plain:
  "\<forall>c\<in>set cs. \<not> isSyntaxCharacter c \<Longrightarrow> parse_quantifier cs = (Once, cs)"
  using quantifier_is_syntax by (cases cs) auto

lemma RegExp_literal:
  "\<forall>c\<in>set w. \<not> isSyntaxCharacter c \<Longrightarrow> RegExp w = Inr (literal_pattern w)"
  unfolding RegExp_def literal_pattern_def
proof (induction w)
  case Nil
  show ?case by simp
next
  case (Cons c w)
  have dot: "isSyntaxCharacter (CHR ''.'')" by (simp add: isSyntaxCharacter_def)
  from Cons.prems have c: "\<not> isSyntaxCharacter c" by simp
  then have c': "\<not> isQuantifierChar c" "c \<noteq> CHR ''.''"
    using quantifier_is_syntax dot by blast+
  have q: "parse_quantifier w = (Once, w)" using Cons.prems by (intro parse_quantifier_plain) simp
  have IH: "parse_terms w = Inr (map (\<lambda>c. (Literal c, Once)) w)" using Cons by simp
  show ?case using c c' q IH by simp
qed

lemma match_here_literal:
  "match_here (literal_pattern w) s =
     (if prefix (map canonicalize w) (map canonicalize s) then Some (length w) else None)"
  unfolding literal_pattern_def
proof (induction w arbitrary: s)
  case Nil
  show ?case by simp
next
  case (Cons c w)
  show ?case by (cases s) (simp_all add: Cons)
qed

lemma count_matches_literal: "count_matches (literal_pattern w) s = count_literal w s"
proof (induction w s rule: count_literal.induct)
  case (1 w)
  show ?case by (simp add: match_here_literal)
next
  case (2 w c cs)
  then show ?case by (simp add: match_here_literal)
qed

lemma reduce_matches_literal:
  "\<forall>w\<in>set ws. \<forall>c\<in>set w. \<not> isSyntaxCharacter c \<Longrightarrow>
     reduce_matches ws lowered acc = Inr (acc + sum_list (map (\<lambda>w. count_literal w lowered) ws))"
  by (induction ws arbitrary: acc) (simp_all add: RegExp_literal count_matches_literal)

lemma scored_literal:
  "\<forall>w\<in>set ws. \<forall>c\<in>set w. \<not> isSyntaxCharacter c \<Longrightarrow>
     scored ws chunks =
       Inr (map (\<lambda>c. with_score c
                        (Some (sum_list (map (\<lambda>w. count_literal w (toLowerCase (content c))) ws))))
              chunks)"
  by (induction chunks) (simp_all add: reduce_matches_literal)

section \<open>The fall-back of the ranker on literal query words\<close>

lemma canonicalize_lower_char: "canonicalize (lower_char c) = canonicalize c"
proof -
  define n where "n = (of_char c :: nat)"
  have n: "n < 256" unfolding n_def by (rule nat_of_char_less_256)
  show ?thesis
  proof (cases "(65 \<le> n \<and> n \<le> 90) \<or> (192 \<le> n \<and> n \<le> 222 \<and> n \<noteq> 215)")
    case True
    then have l: "lower_char c = char_of (n + 32)" by (simp add: lower_char_def n_def)
    have o: "(of_char (char_of (n + 32) :: char) :: nat) = n + 32" using True by auto
    have "canonicalize (char_of (n + 32)) = char_of n"
      using True unfolding canonicalize_def o by (auto simp: Let_def)
    moreover have "canonicalize c = c" using True by (auto simp: canonicalize_def n_def Let_def)
    moreover have "char_of n = c" by (simp add: n_def)
    ultimately show ?thesis using l by simp
  next
    case False
    then have "lower_char c = c" unfolding lower_char_def n_def Let_def by (simp only: if_False)
    then show ?thesis by simp
  qed
qed

lemma canonicalize_toLowerCase: "map canonicalize (toLowerCase s) = map canonicalize s"
  by (simp add: toLowerCase_def canonicalize_lower_char)

lemma count_literal_zero:
  "count_literal w s = 0 \<longleftrightarrow> \<not> sublist (map canonicalize w) (map canonicalize s)"
proof (induction w s rule: count_literal.induct)
  case (1 w)
  show ?case by simp
next
  case (2 w c cs)
  show ?case
  proof (cases "prefix (map canonicalize w) (map canonicalize (c # cs))")
    case True
    then show ?thesis using sublist_Cons_right[of "map canonicalize w" "canonicalize c" "map canonicalize cs"]
      by simp
  next
    case False
    then show ?thesis
      using 2 sublist_Cons_right[of "map canonicalize w" "canonicalize c" "map canonicalize cs"]
      by simp
  qed
qed

lemma count_literal_contains:
  "count_literal w (toLowerCase s) = 0 \<longleftrightarrow> \<not> contains_word s w"
  by (simp add: count_literal_zero contains_word_def canonicalize_toLowerCase)


text \<open>
  C2, as amended. For every chunk list and query where at least one query word survives the
  filter, no surviving word contains a syntax character of regular expressions, and no chunk's
  content contains a surviving word (compared without regard to case),
  \<open>findRelevantChunks\<close> returns \<open>slice(0, topK)\<close> of the original chunk list, which for
  \<open>topK >= 0\<close> is its first \<open>topK\<close> entries, as they are: the returned entries carry no
  \<open>score\<close> field. Nothing is said here about a query word that contains a syntax character.
\<close>

theorem fallback_returns_chunks_unscored:
  assumes "queryWords query \<noteq> []"
    and "\<forall>w\<in>set (queryWords query). \<forall>c\<in>set w. \<not> isSyntaxCharacter c"
    and "\<forall>c\<in>set chunks. \<forall>w\<in>set (queryWords query). \<not> contains_word (content c) w"
  shows "\<exists>out. findRelevantChunks chunks query topK = Inr out
           \<and> map chunk_of out = slice chunks 0 topK
           \<and> (0 \<le> topK \<longrightarrow> map chunk_of out = take (nat topK) chunks)
           \<and> (\<forall>r\<in>set out. score r = None)"
proof -
  have "\<forall>c\<in>set chunks. \<forall>w\<in>set (queryWords query).
           (case RegExp w of
              Inl e \<Rightarrow> False
            | Inr re \<Rightarrow> count_matches re (toLowerCase (content c)) = 0)"
  proof (intro ballI)
    fix c w assume c: "c \<in> set chunks" and w: "w \<in> set (queryWords query)"
    from w assms(2) have "RegExp w = Inr (literal_pattern w)" by (intro RegExp_literal) blast
    moreover have "count_matches (literal_pattern w) (toLowerCase (content c)) = 0"
      using c w assms(3) by (simp add: count_matches_literal count_literal_contains)
    ultimately show "case RegExp w of
              Inl e \<Rightarrow> False
            | Inr re \<Rightarrow> count_matches re (toLowerCase (content c)) = 0" by simp
  qed
  with assms(1) show ?thesis by (rule fallback_unscored_aux)
qed

theorem fallback_returns_chunks_unscored_witness:
  "queryWords ''capital of France'' \<noteq> []
   \<and> list_all (\<lambda>w. list_all (\<lambda>c. \<not> isSyntaxCharacter c) w) (queryWords ''capital of France'')
   \<and> list_all (\<lambda>c. list_all (\<lambda>w. \<not> contains_word (content c) w)
                          (queryWords ''capital of France''))
        [\<lparr>content = ''Paris is great'', chunkIndex = 0, pageNumber = 0\<rparr>,
         \<lparr>content = ''Berlin is cold'', chunkIndex = 1, pageNumber = 0\<rparr>]
   \<and> (0::int) \<le> 1
   \<and> (\<exists>out. findRelevantChunks
                 [\<lparr>content = ''Paris is great'', chunkIndex = 0, pageNumber = 0\<rparr>,
                  \<lparr>content = ''Berlin is cold'', chunkIndex = 1, pageNumber = 0\<rparr>]
                 ''capital of France'' 1 = Inr out
           \<and> map chunk_of out
               = [\<lparr>content = ''Paris is great'', chunkIndex = 0, pageNumber = 0\<rparr>]
           \<and> list_all (\<lambda>r. score r = None) out)"
proof -
  have a: "queryWords ''capital of France'' \<noteq> []" by code_simp
  have b: "list_all (\<lambda>w. list_all (\<lambda>c. \<not> isSyntaxCharacter c) w)
             (queryWords ''capital of France'')" by code_simp
  have c: "list_all (\<lambda>c. list_all (\<lambda>w. \<not> contains_word (content c) w)
                          (queryWords ''capital of France''))
        [\<lparr>content = ''Paris is great'', chunkIndex = 0, pageNumber = 0\<rparr>,
         \<lparr>content = ''Berlin is cold'', chunkIndex = 1, pageNumber = 0\<rparr>]" by code_simp
  have d: "(0::int) \<le> 1" by simp
  from b have b': "\<forall>w\<in>set (queryWords ''capital of France''). \<forall>c\<in>set w. \<not> isSyntaxCharacter c"
    by (simp only: list_all_iff)
  from c have c': "\<forall>c\<in>set [\<lparr>content = ''Paris is great'', chunkIndex = 0, pageNumber = 0\<rparr>,
                 \<lparr>content = ''Berlin is cold'', chunkIndex = 1, pageNumber = 0\<rparr>].
        \<forall>w\<in>set (queryWords ''capital of France''). \<not> contains_word (content c) w"
    by (simp only: list_all_iff)
  from fallback_returns_chunks_unscored[OF a b' c', of 1] d obtain out where
    o: "findRelevantChunks
                 [\<lparr>content = ''Paris is great'', chunkIndex = 0, pageNumber = 0\<rparr>,
                  \<lparr>content = ''Berlin is cold'', chunkIndex = 1, pageNumber = 0\<rparr>]
                 ''capital of France'' 1 = Inr out"
    "map chunk_of out = take (nat 1) [\<lparr>content = ''Paris is great'', chunkIndex = 0, pageNumber = 0\<rparr>,
                  \<lparr>content = ''Berlin is cold'', chunkIndex = 1, pageNumber = 0\<rparr>]"
    "\<forall>r\<in>set out. score r = None" by blast
  have m: "map chunk_of out = [\<lparr>content = ''Paris is great'', chunkIndex = 0, pageNumber = 0\<rparr>]"
    using o(2) by simp
  have n: "list_all (\<lambda>r. score r = None) out" using o(3) by (simp only: list_all_iff)
  have e: "\<exists>out. findRelevantChunks
                 [\<lparr>content = ''Paris is great'', chunkIndex = 0, pageNumber = 0\<rparr>,
                  \<lparr>content = ''Berlin is cold'', chunkIndex = 1, pageNumber = 0\<rparr>]
                 ''capital of France'' 1 = Inr out
           \<and> map chunk_of out
               = [\<lparr>content = ''Paris is great'', chunkIndex = 0, pageNumber = 0\<rparr>]
           \<and> list_all (\<lambda>r. score r = None) out"
    by (rule exI[of _ out]) (rule conjI[OF o(1) conjI[OF m n]])
  show ?thesis by (rule conjI[OF a conjI[OF b conjI[OF c conjI[OF d e]]]])
qed

end
